theory Spec2Isabelle
  imports Main "HOL-Library.Char_ord" "HOL-Library.List_Lexorder"
begin

section \<open>Exceptions, results and actions\<close>

text \<open>
  The exception classes the scraper meets. Every one of them is a subclass of Python's
  \<open>Exception\<close>; selenium's \<open>TimeoutException\<close> and \<open>NoSuchElementException\<close> are
  subclasses of \<open>WebDriverException\<close>. Signals outside \<open>Exception\<close> (KeyboardInterrupt,
  SystemExit) are not raised by any collaborator and are not part of the model.
\<close>

datatype exc_class =
  Exception | WebDriverException | TimeoutException | NoSuchElementException
  | ValueError | OSError

datatype exn = Exn (exn_class: exc_class) (exn_message: string)

fun issubclass :: "exc_class \<Rightarrow> exc_class \<Rightarrow> bool" where
  "issubclass c Exception = True"
| "issubclass c WebDriverException =
     (c = WebDriverException \<or> c = TimeoutException \<or> c = NoSuchElementException)"
| "issubclass c TimeoutException = (c = TimeoutException)"
| "issubclass c NoSuchElementException = (c = NoSuchElementException)"
| "issubclass c ValueError = (c = ValueError)"
| "issubclass c OSError = (c = OSError)"

definition isinstance :: "exn \<Rightarrow> exc_class \<Rightarrow> bool" where
  "isinstance e c = issubclass (exn_class e) c"

text \<open>
  An action runs in a world \<open>'w\<close> and either raises (\<open>Inl\<close>) or returns a value
  (\<open>Inr\<close>); the world it leaves behind is returned in both cases.
\<close>

type_synonym ('a, 'w) action = "'w \<Rightarrow> (exn + 'a) \<times> 'w"

definition return :: "'a \<Rightarrow> ('a, 'w) action" where
  "return v w = (Inr v, w)"


definition bind :: "('a, 'w) action \<Rightarrow> ('a \<Rightarrow> ('b, 'w) action) \<Rightarrow> ('b, 'w) action" where
  "bind m f w = (case m w of (Inl e, w') \<Rightarrow> (Inl e, w') | (Inr v, w') \<Rightarrow> f v w')"

text \<open>
  Python's \<open>try: ... except C1 as e: h1 except C2 as e: h2 ...\<close>: the handlers are
  tried in order, the first whose class the exception is an instance of runs, and an
  exception raised inside a handler is not offered to the later handlers of the same
  statement.
\<close>

fun catch :: "(exn + 'a) \<times> 'w \<Rightarrow> (exc_class \<times> (exn \<Rightarrow> ('a, 'w) action)) list \<Rightarrow> (exn + 'a) \<times> 'w" where
  "catch (Inr v, w) hs = (Inr v, w)"
| "catch (Inl e, w) [] = (Inl e, w)"
| "catch (Inl e, w) ((c, h) # hs) = (if isinstance e c then h e w else catch (Inl e, w) hs)"

definition try_except :: "('a, 'w) action \<Rightarrow> (exc_class \<times> (exn \<Rightarrow> ('a, 'w) action)) list \<Rightarrow> ('a, 'w) action" where
  "try_except body hs w = catch (body w) hs"

text \<open>A \<open>for\<close> loop over a list; an exception leaving the body ends the loop.\<close>

fun for_each :: "'a list \<Rightarrow> ('a \<Rightarrow> (unit, 'w) action) \<Rightarrow> (unit, 'w) action" where
  "for_each [] f = return ()"
| "for_each (x # xs) f = bind (f x) (\<lambda>_. for_each xs f)"

section \<open>The Python runtime and the parsed document\<close>

text \<open>
  A tag of the parsed document, as far as the scraper reads it: \<open>get_text(strip=True)\<close> and
  \<open>.string\<close> (which is \<open>None\<close> for a tag without a single string child).
\<close>

record tag =
  tag_get_text_strip :: string
  tag_string :: "string option"

text \<open>The parsed document: \<open>select\<close>, \<open>find_all\<close> and \<open>get_text()\<close>.\<close>

record soup =
  soup_select :: "string \<Rightarrow> tag list"
  soup_find_all :: "string \<Rightarrow> tag list"
  soup_get_text :: string

text \<open>
  What the code takes from the Python runtime and its libraries and the source does not
  determine: which characters outside ASCII count as alphanumeric for \<^verbatim>\<open>\b\<close>, the hosts
  in brackets that \<open>urlsplit\<close> refuses as no IP address and the netlocs outside ASCII it
  refuses for what their NFKC normal form holds (both checks are absent from older
  versions of the library), the HTML parser, and for which file names
  \<open>open(name, 'w')\<close> fails (with the message of the error).
\<close>

record runtime =
  unicode_isalnum :: "char \<Rightarrow> bool"
  bracketed_host_invalid :: "string \<Rightarrow> bool"
  nfkc_unsafe :: "string \<Rightarrow> bool"
  beautiful_soup :: "string \<Rightarrow> soup"
  open_error :: "string \<Rightarrow> string option"

section \<open>The text extractor\<close>

text \<open>
  Line 66: the pattern \<^verbatim>\<open>\b[A-Za-z0-9._%+-]+@[A-Za-z0-9.-]+\.[A-Z|a-z]{2,}\b\<close> as a sequence of
  atoms. \<open>AtLeast n cs\<close> is a greedy repetition of at least \<open>n\<close> characters of the class
  \<open>cs\<close>, the class written out character by character. The last class is the source's
  \<open>[A-Z|a-z]\<close>: it holds the bar.
\<close>

definition ascii_uppercase :: string where
  "ascii_uppercase = ''ABCDEFGHIJKLMNOPQRSTUVWXYZ''"

definition ascii_lowercase :: string where
  "ascii_lowercase = ''abcdefghijklmnopqrstuvwxyz''"

definition digits :: string where
  "digits = ''0123456789''"

datatype atom = WordBoundary | Lit char | AtLeast nat string

definition local_chars :: string where
  "local_chars = ascii_uppercase @ ascii_lowercase @ digits @ ''._%+-''"

definition domain_chars :: string where
  "domain_chars = ascii_uppercase @ ascii_lowercase @ digits @ ''.-''"

definition tld_chars :: string where
  "tld_chars = ascii_uppercase @ ''|'' @ ascii_lowercase"

definition email_pattern :: "atom list" where
  "email_pattern =
     [WordBoundary, AtLeast 1 local_chars, Lit (CHR ''@''), AtLeast 1 domain_chars,
      Lit (CHR ''.''), AtLeast 2 tld_chars, WordBoundary]"

text \<open>
  \<^verbatim>\<open>\w\<close> of a \<open>str\<close> pattern: ASCII letters, digits and the underscore, and the characters
  outside ASCII that the runtime counts as alphanumeric. \<^verbatim>\<open>\b\<close> holds where exactly one of
  the character before and the character after is such a character; the start and the end
  of the text count as none.
\<close>

definition is_word :: "runtime \<Rightarrow> char \<Rightarrow> bool" where
  "is_word rt c =
     (if (of_char c :: nat) < 128 then c \<in> set (ascii_uppercase @ ascii_lowercase @ digits @ ''_'')
      else unicode_isalnum rt c)"

fun word_before :: "runtime \<Rightarrow> char option \<Rightarrow> bool" where
  "word_before rt None = False"
| "word_before rt (Some c) = is_word rt c"

fun word_after :: "runtime \<Rightarrow> string \<Rightarrow> bool" where
  "word_after rt [] = False"
| "word_after rt (c # cs) = is_word rt c"

fun first_some :: "'a option list \<Rightarrow> 'a option" where
  "first_some [] = None"
| "first_some (None # xs) = first_some xs"
| "first_some (Some x # xs) = Some x"

definition char_before :: "char option \<Rightarrow> string \<Rightarrow> nat \<Rightarrow> char option" where
  "char_before prev s k = (if k = 0 then prev else Some (s ! (k - 1)))"

text \<open>
  The backtracking matcher of \<open>re\<close> on a sequence of atoms, from one position: the
  character before it (\<open>prev\<close>) and the text from it on (\<open>s\<close>). It returns the length of
  the match. A greedy repetition takes as many characters as it can and gives them back one
  at a time until the rest of the pattern matches.
\<close>

fun match_here :: "runtime \<Rightarrow> atom list \<Rightarrow> char option \<Rightarrow> string \<Rightarrow> nat option" where
  "match_here rt [] prev s = Some 0"
| "match_here rt (WordBoundary # atoms) prev s =
     (if word_before rt prev \<noteq> word_after rt s then match_here rt atoms prev s else None)"
| "match_here rt (Lit c # atoms) prev s =
     (case s of
        [] \<Rightarrow> None
      | x # xs \<Rightarrow> if x = c then map_option Suc (match_here rt atoms (Some x) xs) else None)"
| "match_here rt (AtLeast n cs # atoms) prev s =
     first_some
       (map (\<lambda>k. map_option ((+) k) (match_here rt atoms (char_before prev s k) (drop k s)))
            (rev [n ..< Suc (length (takeWhile (\<lambda>c. c \<in> set cs) s))]))"

lemma first_some_Some: "first_some xs = Some x \<Longrightarrow> Some x \<in> set xs"
  by (induction xs rule: first_some.induct) auto

lemma first_some_map_Some: "first_some (map f ks) = Some x \<Longrightarrow> \<exists>k\<in>set ks. f k = Some x"
  using first_some_Some[of "map f ks" x] by auto

lemma first_some_None: "first_some xs = None \<longleftrightarrow> (\<forall>x\<in>set xs. x = None)"
  by (induction xs rule: first_some.induct) auto

lemma match_here_le: "match_here rt atoms prev s = Some n \<Longrightarrow> n \<le> length s"
proof (induction rt atoms prev s arbitrary: n rule: match_here.induct)
  case (1 rt prev s)
  then show ?case by simp
next
  case (2 rt atoms prev s)
  then show ?case by (simp split: if_splits)
next
  case (3 rt c atoms prev s)
  then show ?case by (cases s) (auto split: if_splits)
next
  case (4 rt m cs atoms prev s)
  let ?top = "length (takeWhile (\<lambda>c. c \<in> set cs) s)"
  from "4.prems" have "\<exists>k\<in>set (rev [m ..< Suc ?top]).
      map_option ((+) k) (match_here rt atoms (char_before prev s k) (drop k s)) = Some n"
    unfolding match_here.simps by (rule first_some_map_Some)
  then obtain k where k: "k \<in> set (rev [m ..< Suc ?top])"
      and r: "map_option ((+) k) (match_here rt atoms (char_before prev s k) (drop k s)) = Some n"
    by blast
  from r obtain j where j: "match_here rt atoms (char_before prev s k) (drop k s) = Some j" "n = k + j"
    by auto
  have "j \<le> length (drop k s)" using "4.IH"[OF k j(1)] .
  moreover have "k \<le> length s" using k length_takeWhile_le[of "\<lambda>c. c \<in> set cs" s] by auto
  ultimately show ?case using j(2) by simp
qed

text \<open>
  \<open>re.findall\<close>: the matches of a left to right scan that do not overlap. After a match
  the scan goes on behind it, after a failure one character further.
\<close>

function findall_from :: "runtime \<Rightarrow> atom list \<Rightarrow> char option \<Rightarrow> string \<Rightarrow> string list" where
  "findall_from rt atoms prev s =
     (case match_here rt atoms prev s of
        None \<Rightarrow> (case s of [] \<Rightarrow> [] | c # cs \<Rightarrow> findall_from rt atoms (Some c) cs)
      | Some n \<Rightarrow>
          if n = 0 then [] # (case s of [] \<Rightarrow> [] | c # cs \<Rightarrow> findall_from rt atoms (Some c) cs)
          else take n s # findall_from rt atoms (char_before prev s n) (drop n s))"
  by pat_completeness auto
termination
proof (relation "measure (\<lambda>(rt, atoms, prev, s). length s)", goal_cases)
  case 1
  then show ?case by simp
next
  case (2 rt atoms prev s c cs)
  then show ?case by simp
next
  case (3 rt atoms prev s n c cs)
  then show ?case by simp
next
  case (4 rt atoms prev s n)
  then show ?case using match_here_le[of rt atoms prev s n] by (cases s) auto
qed

definition findall :: "runtime \<Rightarrow> atom list \<Rightarrow> string \<Rightarrow> string list" where
  "findall rt atoms text = findall_from rt atoms None text"

text \<open>Lines 56-68.\<close>

definition extract_emails_from_text :: "runtime \<Rightarrow> string \<Rightarrow> string set" where
  "extract_emails_from_text rt text = set (findall rt email_pattern text)"

section \<open>The browsing session and the world\<close>

datatype By = ID | XPATH | CLASS_NAME | CSS_SELECTOR | TAG_NAME

type_synonym locator = "By \<times> string"

text \<open>
  What \<open>execute_script\<close> hands back: the scroll script returns nothing, the extent
  script returns the integer \<open>document.body.scrollHeight\<close>.
\<close>

datatype jsval = JNone | JInt int

text \<open>
  The remote browser is a state machine over a session state \<open>'s\<close> with element handles
  \<open>'e\<close>. Each operation may raise and always leaves a session state behind.
  \<open>drv_elapse\<close> is what the page does on its own while the scraper sleeps.
\<close>

record ('s, 'e) webdriver =
  drv_chrome :: "bool \<Rightarrow> 's \<Rightarrow> (exn + unit) \<times> 's"
  drv_get :: "string \<Rightarrow> 's \<Rightarrow> (exn + unit) \<times> 's"
  drv_wait_presence :: "int \<Rightarrow> locator \<Rightarrow> 's \<Rightarrow> (exn + 'e) \<times> 's"
  drv_wait_logged_in :: "int \<Rightarrow> 's \<Rightarrow> (exn + unit) \<times> 's"
  drv_find_element :: "locator \<Rightarrow> 's \<Rightarrow> (exn + 'e) \<times> 's"
  drv_find_elements :: "locator \<Rightarrow> 's \<Rightarrow> (exn + 'e list) \<times> 's"
  drv_send_keys :: "'e \<Rightarrow> string \<Rightarrow> 's \<Rightarrow> (exn + unit) \<times> 's"
  drv_click :: "'e \<Rightarrow> 's \<Rightarrow> (exn + unit) \<times> 's"
  drv_is_displayed :: "'e \<Rightarrow> 's \<Rightarrow> (exn + bool) \<times> 's"
  drv_execute_script :: "string \<Rightarrow> 'e list \<Rightarrow> 's \<Rightarrow> (exn + jsval) \<times> 's"
  drv_page_source :: "'s \<Rightarrow> (exn + string) \<times> 's"
  drv_quit :: "'s \<Rightarrow> (exn + unit) \<times> 's"
  drv_elapse :: "int \<Rightarrow> 's \<Rightarrow> 's"

text \<open>The calls the scraper makes on its collaborators, in the order it makes them.\<close>

datatype 'e call =
  Chrome bool | Get string | WaitPresence int locator | WaitLoggedIn int
  | FindElement locator | FindElements locator | SendKeys 'e string | Click 'e
  | IsDisplayed 'e | ExecuteScript string "'e list" | PageSource | Quit | Sleep int

text \<open>
  The world: the session, the trace of calls made so far, the lines printed so far and
  the text files on disk (a name maps to the text stored under it).
\<close>

record ('s, 'e) world =
  session :: 's
  calls :: "'e call list"
  stdout :: "string list"
  files :: "string \<Rightarrow> string option"

definition invoke :: "'e call \<Rightarrow> ('s \<Rightarrow> 'r \<times> 's) \<Rightarrow> ('s, 'e) world \<Rightarrow> 'r \<times> ('s, 'e) world" where
  "invoke c op w =
     (case op (session w) of (r, s') \<Rightarrow> (r, w\<lparr>session := s', calls := calls w @ [c]\<rparr>))"

definition execute_script :: "('s, 'e) webdriver \<Rightarrow> string \<Rightarrow> 'e list \<Rightarrow> (jsval, ('s, 'e) world) action" where
  "execute_script d script args = invoke (ExecuteScript script args) (drv_execute_script d script args)"

definition find_elements :: "('s, 'e) webdriver \<Rightarrow> locator \<Rightarrow> ('e list, ('s, 'e) world) action" where
  "find_elements d loc = invoke (FindElements loc) (drv_find_elements d loc)"

definition is_displayed :: "('s, 'e) webdriver \<Rightarrow> 'e \<Rightarrow> (bool, ('s, 'e) world) action" where
  "is_displayed d el = invoke (IsDisplayed el) (drv_is_displayed d el)"

definition sleep :: "('s, 'e) webdriver \<Rightarrow> int \<Rightarrow> (unit, ('s, 'e) world) action" where
  "sleep d secs = invoke (Sleep secs) (\<lambda>s. (Inr (), drv_elapse d secs s))"

definition print :: "string \<Rightarrow> (unit, ('s, 'e) world) action" where
  "print line w = (Inr (), w\<lparr>stdout := stdout w @ [line]\<rparr>)"

section \<open>The comment expansion loop\<close>

definition scroll_script :: string where
  "scroll_script = ''window.scrollTo(0, document.body.scrollHeight);''"

definition height_script :: string where
  "height_script = ''return document.body.scrollHeight''"

definition click_script :: string where
  "click_script = ''arguments[0].click();''"

definition show_more_selectors :: "string list" where
  "show_more_selectors =
    [''button[aria-label*='' @ [CHR 0x27] @ ''more comments'' @ [CHR 0x27] @ '']'',
     ''button:contains('' @ [CHR 0x27] @ ''Show more comments'' @ [CHR 0x27] @ '')'',
     ''button:contains('' @ [CHR 0x27] @ ''Show previous comments'' @ [CHR 0x27] @ '')'',
     ''button.comments-comments-list__load-more-comments-button'',
     ''button.comments-comments-list__load-more-comments'',
     ''button.comments-comments-list__load-more-replies'',
     ''button.comments-comment-social-bar__replies-count'',
     ''button.comments-comment-social-bar__replies-count--multiple'',
     ''button.comments-comment-social-bar__replies-count--single'']"

definition retries :: int where
  "retries = 3"

text \<open>Lines 173-178: one button of the pass; any exception moves on to the next button.\<close>

definition click_button :: "('s, 'e) webdriver \<Rightarrow> 'e \<Rightarrow> (unit, ('s, 'e) world) action" where
  "click_button d btn =
     try_except
       (bind (is_displayed d btn) (\<lambda>shown.
          if shown then bind (execute_script d click_script [btn]) (\<lambda>_. sleep d 1)
          else return ()))
       [(Exception, \<lambda>e. return ())]"

text \<open>Lines 170-180: one selector of the pass; any exception moves on to the next selector.\<close>

definition click_selector :: "('s, 'e) webdriver \<Rightarrow> string \<Rightarrow> (unit, ('s, 'e) world) action" where
  "click_selector d selector =
     try_except
       (bind (find_elements d (CSS_SELECTOR, selector)) (\<lambda>buttons.
          for_each buttons (click_button d)))
       [(Exception, \<lambda>e. return ())]"

text \<open>Lines 169-180: the expansion-control pass.\<close>

definition expansion_pass :: "('s, 'e) webdriver \<Rightarrow> (unit, ('s, 'e) world) action" where
  "expansion_pass d = for_each show_more_selectors (click_selector d)"

text \<open>
  Lines 143-180: the body of the \<open>while\<close> loop, from the values of \<open>last_height\<close> and
  \<open>attempts\<close> before the iteration to their values after it.
\<close>

definition loop_body :: "('s, 'e) webdriver \<Rightarrow> jsval \<Rightarrow> int \<Rightarrow> (jsval \<times> int, ('s, 'e) world) action" where
  "loop_body d last_height attempts =
     bind (execute_script d scroll_script []) (\<lambda>_.
     bind (sleep d 2) (\<lambda>_.
     bind (execute_script d height_script []) (\<lambda>new_height.
       if new_height = last_height then return (last_height, attempts + 1)
       else bind (expansion_pass d) (\<lambda>_. return (new_height, 0)))))"

text \<open>
  Lines 142-180: the \<open>while attempts < retries\<close> loop. It need not end (a page may grow
  for ever), so not returning is the value \<open>None\<close>. An exception leaving the body ends
  the loop; a normal exit returns the final \<open>last_height\<close> and \<open>attempts\<close>.
\<close>

partial_function (option) while_loop ::
  "('s, 'e) webdriver \<Rightarrow> jsval \<Rightarrow> int \<Rightarrow> ('s, 'e) world \<Rightarrow> ((exn + jsval \<times> int) \<times> ('s, 'e) world) option" where
  "while_loop d last_height attempts w =
     (if attempts < retries then
        (case loop_body d last_height attempts w of
           (Inl e, w') \<Rightarrow> Some (Inl e, w')
         | (Inr (last_height', attempts'), w') \<Rightarrow> while_loop d last_height' attempts' w')
      else Some (Inr (last_height, attempts), w))"

definition report_load_error :: "exn \<Rightarrow> (unit, ('s, 'e) world) action" where
  "report_load_error e = print (''Error in load_all_comments: '' @ exn_message e)"

text \<open>Lines 133-186, with both \<open>except Exception\<close> clauses of the one \<open>try\<close>.\<close>

definition load_all_comments :: "('s, 'e) webdriver \<Rightarrow> ('s, 'e) world \<Rightarrow> ((exn + unit) \<times> ('s, 'e) world) option" where
  "load_all_comments d w =
     (case while_loop d (JInt 0) 0 w of
        None \<Rightarrow> None
      | Some (r, w') \<Rightarrow>
          Some (catch (map_sum id (\<lambda>_. ()) r, w')
                  [(Exception, report_load_error), (Exception, report_load_error)]))"

section \<open>The URL validator\<close>

text \<open>
  \<open>urllib.parse.urlparse\<close> of the standard library (CPython 3.11), for a \<open>str\<close> argument
  and the default \<open>scheme\<close> and \<open>allow_fragments\<close>. The result cache is left out.
\<close>

record parse_result =
  pr_scheme :: string
  pr_netloc :: string
  pr_path :: string
  pr_params :: string
  pr_query :: string
  pr_fragment :: string

text \<open>\<open>needle in hay\<close> for two strings.\<close>

fun contains :: "string \<Rightarrow> string \<Rightarrow> bool" where
  "contains needle [] = (needle = [])"
| "contains needle (c # cs) = (take (length needle) (c # cs) = needle \<or> contains needle cs)"

definition scheme_chars :: string where
  "scheme_chars = ascii_lowercase @ ascii_uppercase @ digits @ ''+-.''"

definition uses_params :: "string list" where
  "uses_params = ['''', ''ftp'', ''hdl'', ''prospero'', ''http'', ''imap'', ''https'', ''shttp'',
     ''rtsp'', ''rtsps'', ''rtspu'', ''sip'', ''sips'', ''mms'', ''sftp'', ''tel'']"

definition c0_control_or_space :: "char \<Rightarrow> bool" where
  "c0_control_or_space c = ((of_char c :: nat) \<le> 32)"

definition unsafe_url_bytes :: string where
  "unsafe_url_bytes = [CHR 0x09, CHR 0x0D, CHR 0x0A]"

definition str_lower :: "string \<Rightarrow> string" where
  "str_lower s = map (\<lambda>c. if c \<in> set ascii_uppercase then char_of (of_char c + (32::nat)) else c) s"

text \<open>\<open>url.split(c, 1)\<close> for a \<open>url\<close> that holds \<open>c\<close>: the text before it and the text after it.\<close>

definition split_once :: "char \<Rightarrow> string \<Rightarrow> string \<times> string" where
  "split_once c url = (takeWhile (\<lambda>x. x \<noteq> c) url, drop 1 (dropWhile (\<lambda>x. x \<noteq> c) url))"

text \<open>\<open>_splitnetloc(url, 2)\<close>: the netloc runs from index 2 to the first of \<open>/?#\<close>.\<close>

definition splitnetloc :: "string \<Rightarrow> string \<times> string" where
  "splitnetloc url =
     (takeWhile (\<lambda>c. c \<notin> set ''/?#'') (drop 2 url), dropWhile (\<lambda>c. c \<notin> set ''/?#'') (drop 2 url))"

text \<open>
  The scheme is the text before the first colon when that text starts with an ASCII letter
  and holds scheme characters only; it is lower-cased.
\<close>

definition split_scheme :: "string \<Rightarrow> string \<times> string" where
  "split_scheme url =
     (let i = length (takeWhile (\<lambda>c. c \<noteq> CHR '':'') url) in
      if i < length url \<and> 0 < i \<and> hd url \<in> set (ascii_lowercase @ ascii_uppercase)
         \<and> (\<forall>c\<in>set (take i url). c \<in> set scheme_chars)
      then (str_lower (take i url), drop (i + 1) url)
      else ('''', url))"

definition bracketed_host :: "string \<Rightarrow> string" where
  "bracketed_host netloc = fst (split_once (CHR '']'') (snd (split_once (CHR ''['') netloc)))"

text \<open>
  \<open>urlsplit\<close>. It raises \<open>ValueError\<close> for a netloc with one bracket and not the other, for
  a bracketed host the runtime refuses, and for a netloc outside ASCII the runtime refuses.
\<close>

definition urlsplit :: "runtime \<Rightarrow> string \<Rightarrow> exn + (string \<times> string \<times> string \<times> string \<times> string)" where
  "urlsplit rt url0 =
     (let url1 = dropWhile c0_control_or_space url0;
          url2 = filter (\<lambda>c. c \<notin> set unsafe_url_bytes) url1;
          (scheme, url3) = split_scheme url2;
          (netloc, url4) = (if take 2 url3 = ''//'' then splitnetloc url3 else ('''', url3));
          (url5, fragment) = (if CHR ''#'' \<in> set url4 then split_once (CHR ''#'') url4 else (url4, ''''));
          (url6, query) = (if CHR ''?'' \<in> set url5 then split_once (CHR ''?'') url5 else (url5, ''''))
      in if (CHR ''['' \<in> set netloc \<and> CHR '']'' \<notin> set netloc)
            \<or> (CHR '']'' \<in> set netloc \<and> CHR ''['' \<notin> set netloc)
         then Inl (Exn ValueError ''Invalid IPv6 URL'')
         else if CHR ''['' \<in> set netloc \<and> CHR '']'' \<in> set netloc
                 \<and> bracketed_host_invalid rt (bracketed_host netloc)
         then Inl (Exn ValueError ''Invalid bracketed host'')
         else if netloc \<noteq> [] \<and> (\<exists>c\<in>set netloc. 128 \<le> (of_char c :: nat)) \<and> nfkc_unsafe rt netloc
         then Inl (Exn ValueError ''netloc contains invalid characters under NFKC normalization'')
         else Inr (scheme, netloc, url6, query, fragment))"

text \<open>\<open>_splitparams\<close>: the parameters start at the first \<open>;\<close> of the last path segment.\<close>

definition splitparams :: "string \<Rightarrow> string \<times> string" where
  "splitparams url =
     (if CHR ''/'' \<in> set url then
        (let last_slash = length url - 1 - length (takeWhile (\<lambda>c. c \<noteq> CHR ''/'') (rev url));
             tail = drop last_slash url
         in if CHR '';'' \<in> set tail
            then (take last_slash url @ fst (split_once (CHR '';'') tail), snd (split_once (CHR '';'') tail))
            else (url, ''''))
      else split_once (CHR '';'') url)"

definition urlparse :: "runtime \<Rightarrow> string \<Rightarrow> exn + parse_result" where
  "urlparse rt url =
     (case urlsplit rt url of
        Inl e \<Rightarrow> Inl e
      | Inr (scheme, netloc, url1, query, fragment) \<Rightarrow>
          (let (url2, params) =
                 (if scheme \<in> set uses_params \<and> CHR '';'' \<in> set url1 then splitparams url1 else (url1, ''''))
           in Inr \<lparr>pr_scheme = scheme, pr_netloc = netloc, pr_path = url2, pr_params = params,
                    pr_query = query, pr_fragment = fragment\<rparr>))"

text \<open>Lines 70-84. Nothing here catches what \<open>urlparse\<close> raises.\<close>

definition validate_linkedin_url :: "runtime \<Rightarrow> string \<Rightarrow> exn + bool" where
  "validate_linkedin_url rt url =
     (case urlparse rt url of
        Inl e \<Rightarrow> Inl e
      | Inr parsed_url \<Rightarrow>
          Inr (contains ''linkedin.com'' (pr_netloc parsed_url)
               \<and> (contains ''/posts/'' (pr_path parsed_url) \<or> contains ''/feed/update/'' (pr_path parsed_url))))"

section \<open>Login, harvest, sink and entry point\<close>






definition click :: "('s, 'e) webdriver \<Rightarrow> 'e \<Rightarrow> (unit, ('s, 'e) world) action" where
  "click d el = invoke (Click el) (drv_click d el)"




text \<open>\<open>str(n)\<close> of a natural number, for the printed counts.\<close>

fun str_nat :: "nat \<Rightarrow> string" where
  "str_nat n = (if n < 10 then [digits ! n] else str_nat (n div 10) @ [digits ! (n mod 10)])"


text \<open>Lines 220-227.\<close>

definition comment_selectors :: "string list" where
  "comment_selectors =
     [''.comments-comment-item'',
      ''.feed-shared-update-v2__commentary'',
      ''.comments-comment-item__main-content'',
      ''[data-test-id='' @ [CHR 0x22] @ ''comments-comment-item'' @ [CHR 0x22] @ '']'',
      ''.comment'',
      ''.social-details-social-activity'']"

text \<open>Lines 237-240: the inner loop over the matches of one selector.\<close>

fun update_from_comments :: "runtime \<Rightarrow> string set \<Rightarrow> tag list \<Rightarrow> string set" where
  "update_from_comments rt all_emails [] = all_emails"
| "update_from_comments rt all_emails (comment # comments) =
     update_from_comments rt
       (all_emails \<union> extract_emails_from_text rt (tag_get_text_strip comment)) comments"

text \<open>
  Lines 231-240: the loop over the selectors, on the pair of \<open>all_emails\<close> and
  \<open>comments_found\<close>. The loop has no \<open>break\<close>: after a selector with matches it goes on
  to the next selector.
\<close>

fun harvest_selectors ::
  "runtime \<Rightarrow> soup \<Rightarrow> string list \<Rightarrow> string set \<times> bool \<Rightarrow> (string set \<times> bool, ('s, 'e) world) action" where
  "harvest_selectors rt sp [] state = return state"
| "harvest_selectors rt sp (selector # selectors) (all_emails, comments_found) =
     (let comments = soup_select sp selector in
      if comments \<noteq> [] then
        bind (print (''Found '' @ str_nat (length comments) @ '' comment elements with selector: '' @ selector)) (\<lambda>_.
        harvest_selectors rt sp selectors (update_from_comments rt all_emails comments, True))
      else harvest_selectors rt sp selectors (all_emails, comments_found))"

text \<open>Lines 250-254: the script tags; \<open>if script.string\<close> skips \<open>None\<close> and the empty string.\<close>

fun update_from_scripts :: "runtime \<Rightarrow> string set \<Rightarrow> tag list \<Rightarrow> string set" where
  "update_from_scripts rt all_emails [] = all_emails"
| "update_from_scripts rt all_emails (script # scripts) =
     update_from_scripts rt
       (case tag_string script of
          None \<Rightarrow> all_emails
        | Some text \<Rightarrow> if text \<noteq> [] then all_emails \<union> extract_emails_from_text rt text else all_emails)
       scripts"

text \<open>Lines 219-257: what \<open>scrape_comments\<close> does with the parsed page.\<close>

definition harvest :: "runtime \<Rightarrow> soup \<Rightarrow> (string set, ('s, 'e) world) action" where
  "harvest rt sp =
     bind (harvest_selectors rt sp comment_selectors ({}, False)) (\<lambda>(all_emails, comments_found).
     bind (if \<not> comments_found then
             bind (print ''Specific comment selectors not found, searching entire page...'') (\<lambda>_.
             return (all_emails \<union> extract_emails_from_text rt (soup_get_text sp)))
           else return all_emails) (\<lambda>all_emails.
     let all_emails = update_from_scripts rt all_emails (soup_find_all sp ''script'') in
     bind (print (''Total emails found: '' @ str_nat (card all_emails))) (\<lambda>_.
     return all_emails)))"



text \<open>
  A file holds text: what reading it back in text mode with the same encoding gives. The
  bytes of the UTF-8 encoding and the line separator of the platform are below the model.
  \<open>open(filename, 'w')\<close> empties the file or fails; \<open>f.write\<close> appends.
\<close>

definition write_text :: "string \<Rightarrow> string \<Rightarrow> (unit, ('s, 'e) world) action" where
  "write_text filename text w =
     (Inr (), w\<lparr>files := (files w)(filename \<mapsto> (case files w filename of None \<Rightarrow> text | Some old \<Rightarrow> old @ text))\<rparr>)"

definition open_for_writing :: "runtime \<Rightarrow> string \<Rightarrow> (unit, ('s, 'e) world) action" where
  "open_for_writing rt filename w =
     (case open_error rt filename of
        Some message \<Rightarrow> (Inl (Exn OSError message), w)
      | None \<Rightarrow> (Inr (), w\<lparr>files := (files w)(filename \<mapsto> [])\<rparr>))"

text \<open>Lines 266-280.\<close>

definition save_emails_to_file :: "runtime \<Rightarrow> string set \<Rightarrow> string \<Rightarrow> (unit, ('s, 'e) world) action" where
  "save_emails_to_file rt emails filename =
     try_except
       (bind (open_for_writing rt filename) (\<lambda>_.
        bind (for_each (sorted_list_of_set emails) (\<lambda>email. write_text filename (email @ [CHR 0x0A]))) (\<lambda>_.
        print (''Emails saved to '' @ filename))))
       [(Exception, \<lambda>e. print (''Error saving emails to file: '' @ exn_message e))]"

text \<open>Lines 299-307: the parsed command line.\<close>

record args =
  arg_url :: string
  arg_email :: string
  arg_password :: string
  arg_output :: string
  arg_headless :: bool
  arg_wait_time :: int







text \<open>
  The spec's reading of lines 141-186: one \<open>try\<close> with a single swallow-and-report
  handler around the loop.
\<close>

definition load_all_comments_single :: "('s, 'e) webdriver \<Rightarrow> ('s, 'e) world \<Rightarrow> ((exn + unit) \<times> ('s, 'e) world) option" where
  "load_all_comments_single d w =
     (case while_loop d (JInt 0) 0 w of
        None \<Rightarrow> None
      | Some (r, w') \<Rightarrow>
          Some (catch (map_sum id (\<lambda>_. ()) r, w') [(Exception, report_load_error)]))"

text \<open>
  Lines 133-186 with the second handler replaced by an arbitrary one: whatever stands in the
  second \<open>except Exception\<close> clause.
\<close>

definition load_all_comments_with ::
  "(exn \<Rightarrow> (unit, ('s, 'e) world) action) \<Rightarrow> ('s, 'e) webdriver \<Rightarrow> ('s, 'e) world \<Rightarrow> ((exn + unit) \<times> ('s, 'e) world) option" where
  "load_all_comments_with second_handler d w =
     (case while_loop d (JInt 0) 0 w of
        None \<Rightarrow> None
      | Some (r, w') \<Rightarrow>
          Some (catch (map_sum id (\<lambda>_. ()) r, w')
                  [(Exception, report_load_error), (Exception, second_handler)]))"

section \<open>Verification of the expansion loop\<close>

definition measurement :: "('s, 'e) webdriver \<Rightarrow> (jsval, ('s, 'e) world) action" where
  "measurement d =
     bind (execute_script d scroll_script []) (\<lambda>_.
     bind (sleep d 2) (\<lambda>_.
     execute_script d height_script []))"

definition measurements :: "'e call list \<Rightarrow> nat" where
  "measurements cs = length (filter (\<lambda>c. c = ExecuteScript height_script []) cs)"

definition selectors_queried :: "'e call list \<Rightarrow> string list" where
  "selectors_queried cs = concat (map (\<lambda>c. case c of FindElements (CSS_SELECTOR, sel) \<Rightarrow> [sel] | _ \<Rightarrow> []) cs)"

definition simulated :: "(nat \<Rightarrow> int) \<Rightarrow> (string \<Rightarrow> string list) \<Rightarrow> string \<Rightarrow> (nat, string) webdriver" where
  "simulated extent controls source = \<lparr>
     drv_chrome = (\<lambda>headless s. (Inr (), s)),
     drv_get = (\<lambda>url s. (Inr (), s)),
     drv_wait_presence = (\<lambda>t loc s. (Inr (snd loc), s)),
     drv_wait_logged_in = (\<lambda>t s. (Inr (), s)),
     drv_find_element = (\<lambda>loc s. (Inr (snd loc), s)),
     drv_find_elements = (\<lambda>loc s. (Inr (controls (snd loc)), s)),
     drv_send_keys = (\<lambda>el keys s. (Inr (), s)),
     drv_click = (\<lambda>el s. (Inr (), s)),
     drv_is_displayed = (\<lambda>el s. (Inr True, s)),
     drv_execute_script = (\<lambda>script args s.
        if script = height_script then (Inr (JInt (extent s)), Suc s) else (Inr JNone, s)),
     drv_page_source = (\<lambda>s. (Inr source, s)),
     drv_quit = (\<lambda>s. (Inr (), s)),
     drv_elapse = (\<lambda>secs s. s) \<rparr>"

definition fresh :: "(nat, string) world" where
  "fresh = \<lparr>session = 0, calls = [], stdout = [], files = (\<lambda>name. None)\<rparr>"

subsection \<open>Relations kept by every step of an action\<close>

definition steps :: "('w \<Rightarrow> 'w \<Rightarrow> bool) \<Rightarrow> ('a, 'w) action \<Rightarrow> bool" where
  "steps R m = (\<forall>w. R w (snd (m w)))"

lemma stepsD: "steps R m \<Longrightarrow> R w (snd (m w))"
  by (simp add: steps_def)

lemma steps_return: "reflp R \<Longrightarrow> steps R (return v)"
  by (simp add: steps_def return_def reflp_def)

lemma steps_bind:
  assumes "transp R" "steps R m" and "\<And>v. steps R (f v)"
  shows "steps R (bind m f)"
  unfolding steps_def
proof
  fix w
  obtain r w1 where mw: "m w = (r, w1)" by (cases "m w")
  have e1: "R w w1" using stepsD[OF assms(2), of w] mw by simp
  show "R w (snd (bind m f w))"
  proof (cases r)
    case (Inl e)
    then show ?thesis using mw e1 by (simp add: bind_def)
  next
    case (Inr v)
    have "R w1 (snd (f v w1))" using assms(3)[of v] by (simp add: steps_def)
    then show ?thesis using mw e1 Inr assms(1) by (auto simp: bind_def dest: transpD)
  qed
qed

lemma steps_for_each:
  assumes "reflp R" "transp R" and "\<And>x. steps R (f x)"
  shows "steps R (for_each xs f)"
  by (induction xs) (auto intro: steps_return steps_bind assms)

lemma steps_swallow:
  assumes "steps R m"
  shows "steps R (try_except m [(Exception, \<lambda>e. return ())])"
  unfolding steps_def
proof
  fix w
  obtain r w1 where mw: "m w = (r, w1)" by (cases "m w")
  have "R w w1" using stepsD[OF assms, of w] mw by simp
  then show "R w (snd (try_except m [(Exception, \<lambda>e. return ())] w))"
    using mw by (cases r) (simp_all add: try_except_def return_def isinstance_def)
qed

lemma swallow_returns: "fst (try_except m [(Exception, \<lambda>e. return ())] w) = Inr ()"
  unfolding try_except_def
  by (cases "m w"; cases "fst (m w)") (auto simp: return_def isinstance_def)

lemma for_each_returns: "(\<And>x w. fst (f x w) = Inr ()) \<Longrightarrow> fst (for_each xs f w) = Inr ()"
proof (induction xs arbitrary: w)
  case Nil then show ?case by (simp add: return_def)
next
  case (Cons x xs)
  show ?case using Cons.prems[of x w] Cons.IH[OF Cons.prems]
    by (cases "f x w") (auto simp: bind_def)
qed

subsection \<open>What the expansion-control pass adds to the trace\<close>

definition extends :: "('e call \<Rightarrow> bool) \<Rightarrow> ('s,'e) world \<Rightarrow> ('s,'e) world \<Rightarrow> bool" where
  "extends Q w w' = (\<exists>cs. calls w' = calls w @ cs \<and> (\<forall>c\<in>set cs. Q c) \<and> stdout w' = stdout w \<and> files w' = files w)"

lemma reflp_extends: "reflp (extends Q)"
  by (simp add: reflp_def extends_def)

lemma transp_extends: "transp (extends Q)"
  by (auto simp: transp_def extends_def)

lemma extends_invoke: "Q c \<Longrightarrow> steps (extends Q) (invoke c op)"
  by (auto simp: steps_def extends_def invoke_def split: prod.splits)

definition button_call :: "'e call \<Rightarrow> bool" where
  "button_call c = (case c of IsDisplayed _ \<Rightarrow> True | Sleep _ \<Rightarrow> True
       | ExecuteScript s args \<Rightarrow> s = click_script \<and> args \<noteq> [] | _ \<Rightarrow> False)"

lemma click_button_calls: "steps (extends button_call) (click_button d btn)"
  unfolding click_button_def is_displayed_def execute_script_def sleep_def
  by (intro steps_swallow steps_bind extends_invoke transp_extends)
     (auto simp: button_call_def intro!: steps_return steps_bind extends_invoke transp_extends reflp_extends)

lemma click_buttons_calls: "steps (extends button_call) (for_each btns (click_button d))"
  by (intro steps_for_each reflp_extends transp_extends click_button_calls)

definition queries :: "string list \<Rightarrow> ('s,'e) world \<Rightarrow> ('s,'e) world \<Rightarrow> bool" where
  "queries sels w w' = (selectors_queried (calls w') = selectors_queried (calls w) @ sels
      \<and> measurements (calls w') = measurements (calls w)
      \<and> stdout w' = stdout w \<and> files w' = files w)"

lemma selectors_queried_append: "selectors_queried (xs @ ys) = selectors_queried xs @ selectors_queried ys"
  by (simp add: selectors_queried_def)

lemma measurements_append: "measurements (xs @ ys) = measurements xs + measurements ys"
  by (simp add: measurements_def)

lemma button_calls_quiet:
  "\<forall>c\<in>set cs. button_call c \<Longrightarrow> selectors_queried cs = [] \<and> measurements cs = 0"
  by (induction cs) (auto simp: selectors_queried_def measurements_def button_call_def split: call.splits)

lemma extends_button_queries: "extends button_call w w' \<Longrightarrow> queries [] w w'"
  by (auto simp: extends_def queries_def selectors_queried_append measurements_append button_calls_quiet)

lemma queries_trans: "queries xs w w1 \<Longrightarrow> queries ys w1 w2 \<Longrightarrow> queries (xs @ ys) w w2"
  by (simp add: queries_def)

lemma click_selector_queries: "queries [sel] w (snd (click_selector d sel w))"
proof -
  obtain r w1 where f: "find_elements d (CSS_SELECTOR, sel) w = (r, w1)"
    by (cases "find_elements d (CSS_SELECTOR, sel) w")
  have q1: "queries [sel] w w1"
    using f by (auto simp: find_elements_def invoke_def queries_def selectors_queried_def measurements_def split: prod.splits)
  show ?thesis
  proof (cases r)
    case (Inl e)
    then show ?thesis using f q1
      by (simp add: click_selector_def try_except_def bind_def return_def isinstance_def)
  next
    case (Inr btns)
    obtain r2 w2 where g: "for_each btns (click_button d) w1 = (r2, w2)"
      by (cases "for_each btns (click_button d) w1")
    have "queries [] w1 w2"
      using stepsD[OF click_buttons_calls] g by (metis extends_button_queries snd_conv)
    then have "queries [sel] w w2" using q1 queries_trans by fastforce
    then show ?thesis using f g Inr
      by (cases r2) (simp_all add: click_selector_def try_except_def bind_def return_def isinstance_def)
  qed
qed

lemma click_selector_returns: "fst (click_selector d sel w) = Inr ()"
  unfolding click_selector_def by (rule swallow_returns)

lemma for_each_click_selector_queries:
  "queries sels w (snd (for_each sels (click_selector d) w))"
proof (induction sels arbitrary: w)
  case Nil
  then show ?case by (simp add: return_def queries_def)
next
  case (Cons sel sels)
  obtain w1 where w1: "click_selector d sel w = (Inr (), w1)"
    using click_selector_returns[of d sel w] by (metis prod.collapse)
  have "queries [sel] w w1" using click_selector_queries[of sel w d] w1 by simp
  moreover have "queries sels w1 (snd (for_each sels (click_selector d) w1))" by (rule Cons.IH)
  ultimately have "queries ([sel] @ sels) w (snd (for_each sels (click_selector d) w1))"
    by (rule queries_trans)
  then show ?case using w1 by (simp add: bind_def)
qed

lemma expansion_pass_queries: "queries show_more_selectors w (snd (expansion_pass d w))"
  unfolding expansion_pass_def by (rule for_each_click_selector_queries)

lemma expansion_pass_returns: "fst (expansion_pass d w) = Inr ()"
  unfolding expansion_pass_def
  by (rule for_each_returns) (rule click_selector_returns)

lemma loop_body_measurement:
  "loop_body d last_height attempts =
     bind (measurement d) (\<lambda>new_height.
       if new_height = last_height then return (last_height, attempts + 1)
       else bind (expansion_pass d) (\<lambda>_. return (new_height, 0)))"
  by (rule ext) (simp add: loop_body_def measurement_def bind_def split: prod.splits sum.splits)

definition still_page :: "(nat, string) webdriver" where
  "still_page = simulated (\<lambda>k. 0) (\<lambda>selector. [''load-more'']) []"

definition loaded_page :: "(nat, string) webdriver" where
  "loaded_page = simulated (\<lambda>k. 1000) (\<lambda>selector. []) []"

definition growing_page :: "(nat, string) webdriver" where
  "growing_page = simulated (\<lambda>k. if k < 3 then 100 * (int k + 1) else 300) (\<lambda>selector. []) []"

definition three_calls :: "string call list" where
  "three_calls = [ExecuteScript scroll_script [], Sleep 2, ExecuteScript height_script []]"

named_theorems run_defs

declare load_all_comments_def [run_defs] while_loop.simps [run_defs] loop_body_def [run_defs]
  expansion_pass_def [run_defs] click_selector_def [run_defs] click_button_def [run_defs]
  try_except_def [run_defs] bind_def [run_defs] return_def [run_defs] execute_script_def [run_defs]
  find_elements_def [run_defs] is_displayed_def [run_defs] sleep_def [run_defs] invoke_def [run_defs]
  simulated_def [run_defs] fresh_def [run_defs] retries_def [run_defs] show_more_selectors_def [run_defs]
  scroll_script_def [run_defs] height_script_def [run_defs] click_script_def [run_defs]
  isinstance_def [run_defs] measurement_def [run_defs] report_load_error_def [run_defs] print_def [run_defs]

lemma loop_body_steady:
  assumes scroll: "\<forall>s. \<not> isl (fst (drv_execute_script d scroll_script [] s))"
      and extent: "\<forall>s. fst (drv_execute_script d height_script [] s) = Inr (JInt h)"
  shows "\<exists>w1. loop_body d lh a w = (Inr (if JInt h = lh then (lh, a + 1) else (JInt h, 0)), w1)
            \<and> measurements (calls w1) = measurements (calls w) + 1 \<and> stdout w1 = stdout w"
proof -
  obtain v s1 where s1: "drv_execute_script d scroll_script [] (session w) = (Inr v, s1)"
    using scroll by (metis isl_def prod.collapse sum.exhaust_sel)
  define s2 where "s2 = drv_elapse d 2 s1"
  obtain s3 where s3: "drv_execute_script d height_script [] s2 = (Inr (JInt h), s3)"
    using extent by (metis prod.collapse)
  define w3 where "w3 = w\<lparr>session := s3, calls := calls w @ [ExecuteScript scroll_script [], Sleep 2, ExecuteScript height_script []]\<rparr>"
  have ne: "scroll_script \<noteq> height_script" by (simp add: scroll_script_def height_script_def)
  have m3: "measurements (calls w3) = measurements (calls w) + 1"
    using ne by (simp add: w3_def measurements_def)
  have body: "loop_body d lh a w =
      (if JInt h = lh then (Inr (lh, a + 1), w3)
       else bind (expansion_pass d) (\<lambda>_. return (JInt h, 0)) w3)"
    using s1 s3 by (simp add: loop_body_def bind_def execute_script_def sleep_def invoke_def return_def s2_def w3_def)
  show ?thesis
  proof (cases "JInt h = lh")
    case True
    then show ?thesis using body m3 by (simp add: w3_def)
  next
    case False
    obtain w4 where w4: "expansion_pass d w3 = (Inr (), w4)"
      using expansion_pass_returns[of d w3] by (metis prod.collapse)
    have "measurements (calls w4) = measurements (calls w3)" "stdout w4 = stdout w3"
      using expansion_pass_queries[of w3 d] w4 by (simp_all add: queries_def)
    then show ?thesis using False body m3 w4 by (simp add: bind_def return_def w3_def)
  qed
qed

lemma while_loop_steady:
  assumes scroll: "\<forall>s. \<not> isl (fst (drv_execute_script d scroll_script [] s))"
      and extent: "\<forall>s. fst (drv_execute_script d height_script [] s) = Inr (JInt h)"
      and "n = nat (3 - a)" "a \<le> 3"
  shows "\<exists>w'. while_loop d (JInt h) a w = Some (Inr (JInt h, 3), w')
            \<and> measurements (calls w') = measurements (calls w) + n \<and> stdout w' = stdout w"
  using assms(3,4)
proof (induction n arbitrary: a w)
  case 0
  then have "a = 3" by simp
  then show ?case by (subst while_loop.simps) (simp add: retries_def)
next
  case (Suc n)
  then have a: "a < 3" by simp
  obtain w1 where w1: "loop_body d (JInt h) a w = (Inr (JInt h, a + 1), w1)"
     "measurements (calls w1) = measurements (calls w) + 1" "stdout w1 = stdout w"
    using loop_body_steady[OF scroll extent, of "JInt h" a w] by auto
  have "n = nat (3 - (a + 1))" "a + 1 \<le> 3" using Suc.prems by simp_all
  from Suc.IH[OF this, of w1] obtain w' where
    "while_loop d (JInt h) (a + 1) w1 = Some (Inr (JInt h, 3), w')"
    "measurements (calls w') = measurements (calls w1) + n" "stdout w' = stdout w1" by blast
  then show ?case using a w1
    by (subst while_loop.simps) (simp add: retries_def)
qed

text \<open>
  Claim C3, as amended. On a document whose measured extent is the same integer \<open>h\<close> at every
  measurement, with a scroll that never raises, \<open>load_all_comments\<close> returns without
  printing anything after exactly 3 measurements when \<open>h = 0\<close> (the initial
  \<open>last_height\<close>) and after exactly 4 measurements otherwise: the first measurement of a
  non-zero extent differs from the initial 0 and resets the counter. The count is never zero.
\<close>

theorem constant_extent_iterations:
  assumes scroll: "\<forall>s. \<not> isl (fst (drv_execute_script d scroll_script [] s))"
      and extent: "\<forall>s. fst (drv_execute_script d height_script [] s) = Inr (JInt h)"
  shows "\<exists>w'. load_all_comments d w = Some (Inr (), w')
            \<and> measurements (calls w') = measurements (calls w) + (if h = 0 then 3 else 4)
            \<and> stdout w' = stdout w"
proof (cases "h = 0")
  case True
  from while_loop_steady[OF scroll extent, of 3 0 w] obtain w' where
    "while_loop d (JInt h) 0 w = Some (Inr (JInt h, 3), w')"
    "measurements (calls w') = measurements (calls w) + 3" "stdout w' = stdout w" by auto
  then show ?thesis using True by (simp add: load_all_comments_def)
next
  case False
  obtain w1 where w1: "loop_body d (JInt 0) 0 w = (Inr (JInt h, 0), w1)"
     "measurements (calls w1) = measurements (calls w) + 1" "stdout w1 = stdout w"
    using loop_body_steady[OF scroll extent, of "JInt 0" 0 w] False by auto
  from while_loop_steady[OF scroll extent, of 3 0 w1] obtain w' where
    "while_loop d (JInt h) 0 w1 = Some (Inr (JInt h, 3), w')"
    "measurements (calls w') = measurements (calls w1) + 3" "stdout w' = stdout w1" by auto
  then show ?thesis using False w1
    by (subst load_all_comments_def, subst while_loop.simps) (simp add: retries_def)
qed

theorem constant_extent_iterations_witness:
  "(\<forall>s. \<not> isl (fst (drv_execute_script loaded_page scroll_script [] s)))
   \<and> (\<forall>s. fst (drv_execute_script loaded_page height_script [] s) = Inr (JInt 1000))
   \<and> (\<exists>w'. load_all_comments loaded_page fresh = Some (Inr (), w')
            \<and> measurements (calls w') = measurements (calls fresh) + 4 \<and> stdout w' = stdout fresh)"
proof -
  have a: "\<forall>s. \<not> isl (fst (drv_execute_script loaded_page scroll_script [] s))"
    by (simp add: loaded_page_def simulated_def scroll_script_def height_script_def)
  have b: "\<forall>s. fst (drv_execute_script loaded_page height_script [] s) = Inr (JInt 1000)"
    by (simp add: loaded_page_def simulated_def)
  show ?thesis using a b constant_extent_iterations[OF a b, of fresh] by simp
qed

theorem loaded_page_counterexample:
  "map_option (measurements \<circ> calls \<circ> snd) (load_all_comments loaded_page fresh) = Some 4"
  by (simp add: run_defs loaded_page_def measurements_def)


definition same_session :: "('s, 'e) world \<Rightarrow> ('s, 'e) world \<Rightarrow> bool" where
  "same_session w w' = (session w' = session w)"

lemma same_session_invoke: "(\<And>s. snd (op s) = s) \<Longrightarrow> steps same_session (invoke c op)"
  by (auto simp: steps_def same_session_def invoke_def split: prod.splits) (metis snd_conv)

lemma expansion_pass_simulated_session:
  "session (snd (expansion_pass (simulated extent controls source) w)) = session w"
proof -
  have r: "reflp (same_session :: (nat, string) world \<Rightarrow> _)" by (simp add: reflp_def same_session_def)
  have t: "transp (same_session :: (nat, string) world \<Rightarrow> _)" by (simp add: transp_def same_session_def)
  have ne: "click_script \<noteq> height_script" by (simp add: click_script_def height_script_def)
  have "steps same_session (expansion_pass (simulated extent controls source))"
    unfolding expansion_pass_def click_selector_def click_button_def
      find_elements_def is_displayed_def execute_script_def sleep_def
    by (intro steps_for_each steps_swallow steps_bind same_session_invoke r t)
       (auto simp: simulated_def ne intro!: steps_return steps_bind same_session_invoke r t)
  then show ?thesis by (simp add: steps_def same_session_def)
qed

lemma loop_body_simulated:
  "\<exists>w1. loop_body (simulated extent controls source) lh a w =
          (Inr (if JInt (extent (session w)) = lh then (lh, a + 1) else (JInt (extent (session w)), 0)), w1)
        \<and> measurements (calls w1) = measurements (calls w) + 1
        \<and> session w1 = Suc (session w) \<and> stdout w1 = stdout w"
proof -
  let ?d = "simulated extent controls source"
  define w3 where "w3 = w\<lparr>session := Suc (session w), calls := calls w @ [ExecuteScript scroll_script [], Sleep 2, ExecuteScript height_script []]\<rparr>"
  have ne: "scroll_script \<noteq> height_script" by (simp add: scroll_script_def height_script_def)
  have m3: "measurements (calls w3) = measurements (calls w) + 1"
    using ne by (simp add: w3_def measurements_def)
  have body: "loop_body ?d lh a w =
      (if JInt (extent (session w)) = lh then (Inr (lh, a + 1), w3)
       else bind (expansion_pass ?d) (\<lambda>_. return (JInt (extent (session w)), 0)) w3)"
    using ne by (simp add: loop_body_def bind_def execute_script_def sleep_def invoke_def return_def w3_def simulated_def)
  show ?thesis
  proof (cases "JInt (extent (session w)) = lh")
    case True
    then show ?thesis using body m3 by (simp add: w3_def)
  next
    case False
    obtain w4 where w4: "expansion_pass ?d w3 = (Inr (), w4)"
      using expansion_pass_returns[of ?d w3] by (metis prod.collapse)
    have "measurements (calls w4) = measurements (calls w3)" "stdout w4 = stdout w3"
      using expansion_pass_queries[of w3 ?d] w4 by (simp_all add: queries_def)
    moreover have "session w4 = session w3"
      using expansion_pass_simulated_session[of extent controls source w3] w4 by simp
    ultimately show ?thesis using False body m3 w4 by (simp add: bind_def return_def w3_def)
  qed
qed

lemma while_loop_step:
  assumes "a < 3" "loop_body d lh a w = (Inr (lh', a'), w1)"
  shows "while_loop d lh a w = while_loop d lh' a' w1"
  using assms by (subst while_loop.simps) (simp add: retries_def)

text \<open>
  Claim C5. On a simulated document, measured from a fresh session, whose extent grows at
  the first three measurements (above the initial 0, then above each previous value) and is
  constant from then on, \<open>load_all_comments\<close> returns without printing anything after exactly
  3 + 3 = 6 measurements.
\<close>

theorem growing_then_plateau_iterations:
  assumes start: "session w = 0"
      and grow: "0 < extent 0" "extent 0 < extent 1" "extent 1 < extent 2"
      and plateau: "\<forall>k\<ge>3. extent k = extent 2"
  shows "\<exists>w'. load_all_comments (simulated extent controls source) w = Some (Inr (), w')
            \<and> measurements (calls w') = measurements (calls w) + 6 \<and> stdout w' = stdout w"
proof -
  let ?d = "simulated extent controls source"
  have p: "extent 3 = extent 2" "extent 4 = extent 2" "extent 5 = extent 2"
    using plateau by simp_all
  obtain w1 where w1: "loop_body ?d (JInt 0) 0 w = (Inr (JInt (extent 0), 0), w1)"
      "measurements (calls w1) = measurements (calls w) + 1" "session w1 = 1" "stdout w1 = stdout w"
    using loop_body_simulated[of extent controls source "JInt 0" 0 w] start grow by auto
  obtain w2 where w2: "loop_body ?d (JInt (extent 0)) 0 w1 = (Inr (JInt (extent 1), 0), w2)"
      "measurements (calls w2) = measurements (calls w1) + 1" "session w2 = 2" "stdout w2 = stdout w1"
    using loop_body_simulated[of extent controls source "JInt (extent 0)" 0 w1] w1(3) grow by auto
  obtain w3 where w3: "loop_body ?d (JInt (extent 1)) 0 w2 = (Inr (JInt (extent 2), 0), w3)"
      "measurements (calls w3) = measurements (calls w2) + 1" "session w3 = 3" "stdout w3 = stdout w2"
    using loop_body_simulated[of extent controls source "JInt (extent 1)" 0 w2] w2(3) grow
    by (auto simp: numeral_2_eq_2)
  obtain w4 where w4: "loop_body ?d (JInt (extent 2)) 0 w3 = (Inr (JInt (extent 2), 1), w4)"
      "measurements (calls w4) = measurements (calls w3) + 1" "session w4 = 4" "stdout w4 = stdout w3"
    using loop_body_simulated[of extent controls source "JInt (extent 2)" 0 w3] w3(3) p by auto
  obtain w5 where w5: "loop_body ?d (JInt (extent 2)) 1 w4 = (Inr (JInt (extent 2), 2), w5)"
      "measurements (calls w5) = measurements (calls w4) + 1" "session w5 = 5" "stdout w5 = stdout w4"
    using loop_body_simulated[of extent controls source "JInt (extent 2)" 1 w4] w4(3) p by auto
  obtain w6 where w6: "loop_body ?d (JInt (extent 2)) 2 w5 = (Inr (JInt (extent 2), 3), w6)"
      "measurements (calls w6) = measurements (calls w5) + 1" "session w6 = 6" "stdout w6 = stdout w5"
    using loop_body_simulated[of extent controls source "JInt (extent 2)" 2 w5] w5(3) p by auto
  have "while_loop ?d (JInt 0) 0 w = while_loop ?d (JInt (extent 2)) 3 w6"
    using while_loop_step[OF _ w1(1)] while_loop_step[OF _ w2(1)] while_loop_step[OF _ w3(1)]
      while_loop_step[OF _ w4(1)] while_loop_step[OF _ w5(1)] while_loop_step[OF _ w6(1)]
    by simp
  also have "\<dots> = Some (Inr (JInt (extent 2), 3), w6)"
    by (subst while_loop.simps) (simp add: retries_def)
  finally have "load_all_comments ?d w = Some (Inr (), w6)"
    by (simp add: load_all_comments_def)
  moreover have "measurements (calls w6) = measurements (calls w) + 6"
    using w1(2) w2(2) w3(2) w4(2) w5(2) w6(2) by simp
  moreover have "stdout w6 = stdout w"
    using w1(4) w2(4) w3(4) w4(4) w5(4) w6(4) by simp
  ultimately show ?thesis by blast
qed

theorem growing_then_plateau_iterations_witness:
  "session fresh = 0 \<and> (0::int) < 100 \<and> (100::int) < 200 \<and> (200::int) < 300
   \<and> (\<exists>w'. load_all_comments growing_page fresh = Some (Inr (), w')
            \<and> measurements (calls w') = measurements (calls fresh) + 6 \<and> stdout w' = stdout fresh)"
  using growing_then_plateau_iterations[of fresh "\<lambda>k. if k < 3 then 100 * (int k + 1) else 300" "\<lambda>selector. []" "[]"]
  by (simp add: growing_page_def fresh_def)

lemma catch_second_irrelevant:
  "catch r [(Exception, h), (Exception, h2)] = catch r [(Exception, h)]"
  by (cases r; cases "fst r") (auto simp: isinstance_def)

text \<open>
  Claim C10. The second of the two stacked \<open>except Exception\<close> clauses never runs:
  replacing it by any other handler leaves \<open>load_all_comments\<close> unchanged, and
  \<open>load_all_comments\<close> equals the function with a single swallow-and-report handler.
\<close>

theorem second_handler_unreachable:
  "load_all_comments_with second_handler d w = load_all_comments d w
   \<and> load_all_comments d w = load_all_comments_single d w"
  unfolding load_all_comments_with_def load_all_comments_def load_all_comments_single_def
  by (cases "while_loop d (JInt 0) 0 w") (auto simp: catch_second_irrelevant)


subsection \<open>The calls of one pass\<close>















lemma loop_body_attempts:
  assumes "loop_body d lh a w = (Inr (lh', a'), w')"
  shows "a' = a + 1 \<or> a' = 0"
proof -
  obtain r w1 where m: "measurement d w = (r, w1)" by (cases "measurement d w")
  show ?thesis
  proof (cases r)
    case (Inl e)
    then show ?thesis using assms m by (simp add: loop_body_measurement bind_def)
  next
    case (Inr h)
    obtain w2 where w2: "expansion_pass d w1 = (Inr (), w2)"
      using expansion_pass_returns[of d w1] by (metis prod.collapse)
    show ?thesis using assms m Inr w2
      by (auto simp: loop_body_measurement bind_def return_def split: if_splits)
  qed
qed

lemma while_loop_exit_aux:
  assumes "while_loop d lh a w = Some r"
  shows "a \<le> 3 \<longrightarrow> (\<forall>lh' a'. fst r = Inr (lh', a') \<longrightarrow> a' = 3)"
proof (rule while_loop.raw_induct[where P = "\<lambda>d lh a w r. a \<le> 3 \<longrightarrow> (\<forall>lh' a'. fst r = Inr (lh', a') \<longrightarrow> a' = 3)", OF _ assms])
  fix loop :: "('a, 'b) webdriver \<Rightarrow> jsval \<Rightarrow> int \<Rightarrow> ('a, 'b) world \<Rightarrow> ((exn + jsval \<times> int) \<times> ('a, 'b) world) option"
  fix d lh a w r
  assume IH: "\<And>d lh a w r. loop d lh a w = Some r \<Longrightarrow> a \<le> 3 \<longrightarrow> (\<forall>lh' a'. fst r = Inr (lh', a') \<longrightarrow> a' = 3)"
  assume body: "(if a < retries then
        (case loop_body d lh a w of
           (Inl e, w') \<Rightarrow> Some (Inl e, w')
         | (Inr (last_height', attempts'), w') \<Rightarrow> loop d last_height' attempts' w')
      else Some (Inr (lh, a), w)) = Some r"
  show "a \<le> 3 \<longrightarrow> (\<forall>lh' a'. fst r = Inr (lh', a') \<longrightarrow> a' = 3)"
  proof (cases "a < 3")
    case False
    then show ?thesis using body by (auto simp: retries_def)
  next
    case True
    obtain x w1 where b: "loop_body d lh a w = (x, w1)" by (cases "loop_body d lh a w")
    show ?thesis
    proof (cases x)
      case (Inl e)
      then show ?thesis using body True b by (auto simp: retries_def)
    next
      case (Inr p)
      obtain lh1 a1 where p: "p = (lh1, a1)" by (cases p)
      have "a1 = a + 1 \<or> a1 = 0" using loop_body_attempts[of d lh a w lh1 a1 w1] b Inr p by simp
      then have a1: "a1 \<le> 3" using True by auto
      have "loop d lh1 a1 w1 = Some r" using body True b Inr p by (simp add: retries_def)
      from IH[OF this] a1 show ?thesis by simp
    qed
  qed
qed

text \<open>
  Claim C4. A measurement strictly greater than \<open>last_height\<close> makes it the new
  \<open>last_height\<close> and resets \<open>attempts\<close> to 0, and the loop goes on from that state; a
  measurement equal to \<open>last_height\<close> leaves it and adds 1 to \<open>attempts\<close>, and the loop goes
  on from that state; and the loop leaves through its condition exactly when \<open>attempts\<close>
  has reached 3: it returns at once when \<open>attempts\<close> is 3, whenever it returns normally
  \<open>attempts\<close> is 3, and below 3 it does not stop where it stands.
\<close>

theorem expansion_state_invariant:
  "(measurement d w = (Inr (JInt n), w1) \<and> l < n \<longrightarrow>
       loop_body d (JInt l) a w = (Inr (JInt n, 0), snd (expansion_pass d w1))
       \<and> (a < 3 \<longrightarrow> while_loop d (JInt l) a w = while_loop d (JInt n) 0 (snd (expansion_pass d w1))))
   \<and> (measurement d u = (Inr h, u1) \<longrightarrow>
       loop_body d h c u = (Inr (h, c + 1), u1)
       \<and> (c < 3 \<longrightarrow> while_loop d h c u = while_loop d h (c + 1) u1))
   \<and> (b \<le> 3 \<and> while_loop d lh b v = Some (Inr (lh', b'), v') \<longrightarrow> b' = 3)
   \<and> while_loop d lh 3 v = Some (Inr (lh, 3), v)
   \<and> (b < 3 \<longrightarrow> while_loop d lh b v \<noteq> Some (Inr (lh, b), v))"
proof (intro conjI impI)
  assume m: "measurement d w = (Inr (JInt n), w1) \<and> l < n"
  then show body: "loop_body d (JInt l) a w = (Inr (JInt n, 0), snd (expansion_pass d w1))"
    using expansion_pass_returns[of d w1]
    by (cases "expansion_pass d w1") (simp add: loop_body_measurement bind_def return_def)
  assume "a < 3"
  then show "while_loop d (JInt l) a w = while_loop d (JInt n) 0 (snd (expansion_pass d w1))"
    using body by (rule while_loop_step)
next
  assume "measurement d u = (Inr h, u1)"
  then show body: "loop_body d h c u = (Inr (h, c + 1), u1)"
    by (simp add: loop_body_measurement bind_def return_def)
  assume "c < 3"
  then show "while_loop d h c u = while_loop d h (c + 1) u1"
    using body by (rule while_loop_step)
next
  assume "b \<le> 3 \<and> while_loop d lh b v = Some (Inr (lh', b'), v')"
  then show "b' = 3" using while_loop_exit_aux[of d lh b v "(Inr (lh', b'), v')"] by simp
next
  show "while_loop d lh 3 v = Some (Inr (lh, 3), v)"
    by (subst while_loop.simps) (simp add: retries_def)
next
  assume "b < 3"
  then show "while_loop d lh b v \<noteq> Some (Inr (lh, b), v)"
    using while_loop_exit_aux[of d lh b v "(Inr (lh, b), v)"] by auto
qed


lemma growing_page_run:
  "\<exists>v'. while_loop growing_page (JInt 0) 0 fresh = Some (Inr (JInt 300, 3), v')
      \<and> session v' = 6 \<and> measurements (calls v') = 6"
  by (simp add: run_defs growing_page_def three_calls_def measurements_def)

theorem expansion_state_invariant_witness:
  "measurement growing_page fresh = (Inr (JInt 100), fresh\<lparr>session := 1, calls := three_calls\<rparr>)
   \<and> (0::int) < 100
   \<and> loop_body growing_page (JInt 0) 0 fresh
        = (Inr (JInt 100, 0), snd (expansion_pass growing_page (fresh\<lparr>session := 1, calls := three_calls\<rparr>)))
   \<and> while_loop growing_page (JInt 0) 0 fresh
        = while_loop growing_page (JInt 100) 0
            (snd (expansion_pass growing_page (fresh\<lparr>session := 1, calls := three_calls\<rparr>)))
   \<and> measurement still_page fresh = (Inr (JInt 0), fresh\<lparr>session := 1, calls := three_calls\<rparr>)
   \<and> loop_body still_page (JInt 0) 2 fresh = (Inr (JInt 0, 3), fresh\<lparr>session := 1, calls := three_calls\<rparr>)
   \<and> while_loop still_page (JInt 0) 2 fresh
        = while_loop still_page (JInt 0) 3 (fresh\<lparr>session := 1, calls := three_calls\<rparr>)
   \<and> (\<exists>v'. while_loop growing_page (JInt 0) 0 fresh = Some (Inr (JInt 300, 3), v')
          \<and> session v' = 6 \<and> measurements (calls v') = 6)
   \<and> while_loop growing_page (JInt 300) 3 fresh = Some (Inr (JInt 300, 3), fresh)
   \<and> while_loop growing_page (JInt 0) 0 fresh \<noteq> Some (Inr (JInt 0, 0), fresh)"
proof -
  let ?w1 = "fresh\<lparr>session := 1, calls := three_calls\<rparr>"
  have g: "measurement growing_page fresh = (Inr (JInt 100), ?w1)"
    by (simp add: run_defs growing_page_def three_calls_def)
  have s: "measurement still_page fresh = (Inr (JInt 0), ?w1)"
    by (simp add: run_defs still_page_def three_calls_def)
  obtain v' where r: "while_loop growing_page (JInt 0) 0 fresh = Some (Inr (JInt 300, 3), v')"
      "session v' = 6" "measurements (calls v') = 6"
    using growing_page_run by blast
  note t = expansion_state_invariant[of growing_page fresh 100 ?w1 0 0 fresh "JInt 100" ?w1 0
      0 "JInt 0" fresh "JInt 300" 3 v']
  note t2 = expansion_state_invariant[of growing_page fresh 100 ?w1 0 0 fresh "JInt 100" ?w1 0
      0 "JInt 300" fresh "JInt 300" 3 v']
  note t' = expansion_state_invariant[of still_page fresh 0 ?w1 "-1" 0 fresh "JInt 0" ?w1 2
      0 "JInt 300" fresh "JInt 300" 3 v']
  have a: "loop_body growing_page (JInt 0) 0 fresh = (Inr (JInt 100, 0), snd (expansion_pass growing_page ?w1))
      \<and> while_loop growing_page (JInt 0) 0 fresh
        = while_loop growing_page (JInt 100) 0 (snd (expansion_pass growing_page ?w1))"
    using t g by simp
  have b: "loop_body still_page (JInt 0) 2 fresh = (Inr (JInt 0, 3), ?w1)
      \<and> while_loop still_page (JInt 0) 2 fresh = while_loop still_page (JInt 0) 3 ?w1"
    using t' s by simp
  have c: "while_loop growing_page (JInt 300) 3 fresh = Some (Inr (JInt 300, 3), fresh)"
    using t2 by blast
  have d: "while_loop growing_page (JInt 0) 0 fresh \<noteq> Some (Inr (JInt 0, 0), fresh)"
    using t by simp
  have e: "\<exists>v'. while_loop growing_page (JInt 0) 0 fresh = Some (Inr (JInt 300, 3), v')
          \<and> session v' = 6 \<and> measurements (calls v') = 6"
    using r by blast
  have z: "(0::int) < 100" by simp
  from g z a[THEN conjunct1] a[THEN conjunct2] s b[THEN conjunct1] b[THEN conjunct2] e c d
  show ?thesis by (intro conjI)
qed

section \<open>Verification of the text extractor\<close>

definition plain_runtime :: runtime where
  "plain_runtime = \<lparr>unicode_isalnum = (\<lambda>c. False), bracketed_host_invalid = (\<lambda>host. False),
     nfkc_unsafe = (\<lambda>netloc. False),
     beautiful_soup = (\<lambda>src. \<lparr>soup_select = (\<lambda>sel. []), soup_find_all = (\<lambda>name. []), soup_get_text = src\<rparr>),
     open_error = (\<lambda>name. None)\<rparr>"

fun matches :: "runtime \<Rightarrow> atom list \<Rightarrow> char option \<Rightarrow> string \<Rightarrow> nat \<Rightarrow> bool" where
  "matches rt [] prev s n = (n = 0)"
| "matches rt (WordBoundary # atoms) prev s n =
     (word_before rt prev \<noteq> word_after rt s \<and> matches rt atoms prev s n)"
| "matches rt (Lit c # atoms) prev s n =
     (case s of [] \<Rightarrow> False | x # xs \<Rightarrow> x = c \<and> 0 < n \<and> matches rt atoms (Some x) xs (n - 1))"
| "matches rt (AtLeast m cs # atoms) prev s n =
     (\<exists>k\<in>{m..n}. k \<le> length s \<and> set (take k s) \<subseteq> set cs
        \<and> matches rt atoms (char_before prev s k) (drop k s) (n - k))"

lemma takeWhile_length_set: "k \<le> length (takeWhile P s) \<Longrightarrow> x \<in> set (take k s) \<Longrightarrow> P x"
  by (metis in_set_takeD set_takeWhileD take_all takeWhile_eq_take take_take min.absorb1 length_takeWhile_le
      order_trans)

lemma match_here_sound: "match_here rt atoms prev s = Some n \<Longrightarrow> matches rt atoms prev s n"
proof (induction rt atoms prev s arbitrary: n rule: match_here.induct)
  case (1 rt prev s)
  then show ?case by simp
next
  case (2 rt atoms prev s)
  then show ?case by (simp split: if_splits)
next
  case (3 rt c atoms prev s)
  then show ?case by (cases s) (auto split: if_splits)
next
  case (4 rt m cs atoms prev s)
  let ?top = "length (takeWhile (\<lambda>c. c \<in> set cs) s)"
  from "4.prems" have "\<exists>k\<in>set (rev [m ..< Suc ?top]).
      map_option ((+) k) (match_here rt atoms (char_before prev s k) (drop k s)) = Some n"
    unfolding match_here.simps by (rule first_some_map_Some)
  then obtain k where k: "k \<in> set (rev [m ..< Suc ?top])"
      and r: "map_option ((+) k) (match_here rt atoms (char_before prev s k) (drop k s)) = Some n"
    by blast
  from r obtain j where j: "match_here rt atoms (char_before prev s k) (drop k s) = Some j" "n = k + j"
    by auto
  have mj: "matches rt atoms (char_before prev s k) (drop k s) j" using "4.IH"[OF k j(1)] .
  have kt: "m \<le> k" "k \<le> ?top" using k by auto
  have kl: "k \<le> length s" using kt(2) length_takeWhile_le[of "\<lambda>c. c \<in> set cs" s] by simp
  have sub: "set (take k s) \<subseteq> set cs" using takeWhile_length_set[OF kt(2)] by blast
  show ?case using mj kt(1) kl sub j(2) by (auto intro!: bexI[of _ k])
qed

lemma take_subset_takeWhile: "k \<le> length s \<Longrightarrow> set (take k s) \<subseteq> {x. P x} \<Longrightarrow> k \<le> length (takeWhile P s)"
proof (induction s arbitrary: k)
  case Nil
  then show ?case by simp
next
  case (Cons a s)
  then show ?case by (cases k) auto
qed

lemma match_here_complete: "matches rt atoms prev s n \<Longrightarrow> match_here rt atoms prev s \<noteq> None"
proof (induction rt atoms prev s arbitrary: n rule: match_here.induct)
  case (1 rt prev s)
  then show ?case by simp
next
  case (2 rt atoms prev s)
  then show ?case by auto
next
  case (3 rt c atoms prev s)
  then show ?case by (cases s) auto
next
  case (4 rt m cs atoms prev s)
  let ?top = "length (takeWhile (\<lambda>c. c \<in> set cs) s)"
  from "4.prems" obtain k where k: "m \<le> k" "k \<le> n" "k \<le> length s" "set (take k s) \<subseteq> set cs"
      "matches rt atoms (char_before prev s k) (drop k s) (n - k)" by auto
  have "k \<le> ?top" using take_subset_takeWhile[OF k(3), of "\<lambda>c. c \<in> set cs"] k(4) by auto
  then have kin: "k \<in> set (rev [m ..< Suc ?top])" using k(1) by auto
  have "match_here rt atoms (char_before prev s k) (drop k s) \<noteq> None"
    using "4.IH"[OF kin k(5)] .
  then have "\<exists>x\<in>set (map (\<lambda>k. map_option ((+) k) (match_here rt atoms (char_before prev s k) (drop k s)))
            (rev [m ..< Suc ?top])). x \<noteq> None"
    using kin by (intro bexI[of _ "map_option ((+) k) (match_here rt atoms (char_before prev s k) (drop k s))"]) auto
  then show ?case unfolding match_here.simps using first_some_None by blast
qed

definition email_shape :: "string \<Rightarrow> bool" where
  "email_shape e =
     (\<exists>l d t. e = l @ ''@'' @ d @ ''.'' @ t
        \<and> l \<noteq> [] \<and> set l \<subseteq> set local_chars
        \<and> d \<noteq> [] \<and> set d \<subseteq> set domain_chars
        \<and> 2 \<le> length t \<and> set t \<subseteq> set (ascii_uppercase @ ascii_lowercase))"

definition matched_shape :: "string \<Rightarrow> bool" where
  "matched_shape e =
     (\<exists>l d t. e = l @ ''@'' @ d @ ''.'' @ t
        \<and> l \<noteq> [] \<and> set l \<subseteq> set local_chars
        \<and> d \<noteq> [] \<and> set d \<subseteq> set domain_chars
        \<and> 2 \<le> length t \<and> set t \<subseteq> set tld_chars)"

definition word_boundary :: "runtime \<Rightarrow> string \<Rightarrow> string \<Rightarrow> bool" where
  "word_boundary rt before after =
     ((before \<noteq> [] \<and> is_word rt (last before)) \<noteq> (after \<noteq> [] \<and> is_word rt (hd after)))"

definition last_char :: "char option \<Rightarrow> string \<Rightarrow> char option" where
  "last_char prev pre = (if pre = [] then prev else Some (last pre))"

lemma char_before_last_char: "k \<le> length s \<Longrightarrow> char_before prev s k = last_char prev (take k s)"
  by (cases k) (auto simp: char_before_def last_char_def last_conv_nth min_def)

lemma last_char_append: "last_char (last_char prev xs) ys = last_char prev (xs @ ys)"
  by (simp add: last_char_def)

fun shape :: "atom list \<Rightarrow> string \<Rightarrow> bool" where
  "shape [] e = (e = [])"
| "shape (WordBoundary # atoms) e = shape atoms e"
| "shape (Lit c # atoms) e = (\<exists>r. e = c # r \<and> shape atoms r)"
| "shape (AtLeast m cs # atoms) e = (\<exists>u r. e = u @ r \<and> m \<le> length u \<and> set u \<subseteq> set cs \<and> shape atoms r)"

lemma matches_shape: "matches rt atoms prev s n \<Longrightarrow> n \<le> length s \<and> shape atoms (take n s)"
proof (induction rt atoms prev s n rule: matches.induct)
  case (1 rt prev s n)
  then show ?case by simp
next
  case (2 rt atoms prev s n)
  then show ?case by simp
next
  case (3 rt c atoms prev s n)
  then show ?case by (cases s; cases n) auto
next
  case (4 rt m cs atoms prev s n)
  from "4.prems" obtain k where k: "k \<in> {m..n}" "k \<le> length s" "set (take k s) \<subseteq> set cs"
      "matches rt atoms (char_before prev s k) (drop k s) (n - k)" by auto
  from "4.IH"[OF k(1) k(4)] have ih: "n - k \<le> length (drop k s)" "shape atoms (take (n - k) (drop k s))"
    by simp_all
  have n: "n \<le> length s" using ih(1) k(1,2) by auto
  have "take n s = take k s @ take (n - k) (drop k s)"
    using k(1) by (metis atLeastAtMost_iff le_add_diff_inverse take_add)
  then have "\<exists>u r. take n s = u @ r \<and> m \<le> length u \<and> set u \<subseteq> set cs \<and> shape atoms r"
    using ih(2) k by (intro exI[of _ "take k s"] exI[of _ "take (n - k) (drop k s)"]) auto
  then show ?case using n by simp
qed

lemma matched_shape_pattern: "matched_shape e = shape email_pattern e"
proof
  assume "matched_shape e"
  then obtain l d t where e: "e = l @ ''@'' @ d @ ''.'' @ t"
     and l: "l \<noteq> []" "set l \<subseteq> set local_chars"
     and d: "d \<noteq> []" "set d \<subseteq> set domain_chars"
     and t: "2 \<le> length t" "set t \<subseteq> set tld_chars"
    unfolding matched_shape_def by blast
  have s3: "shape [AtLeast 2 tld_chars, WordBoundary] t"
    using t by simp
  have s2: "shape [Lit (CHR ''.''), AtLeast 2 tld_chars, WordBoundary] (''.'' @ t)"
    using s3 by simp
  have "\<exists>u r. d @ ''.'' @ t = u @ r \<and> 1 \<le> length u \<and> set u \<subseteq> set domain_chars
           \<and> shape [Lit (CHR ''.''), AtLeast 2 tld_chars, WordBoundary] r"
    using s2 d by (intro exI[of _ d] exI[of _ "''.'' @ t"]) (cases d, auto)
  then have s1: "shape [AtLeast 1 domain_chars, Lit (CHR ''.''), AtLeast 2 tld_chars, WordBoundary] (d @ ''.'' @ t)"
    by simp
  have s0: "shape [Lit (CHR ''@''), AtLeast 1 domain_chars, Lit (CHR ''.''), AtLeast 2 tld_chars, WordBoundary]
              (''@'' @ d @ ''.'' @ t)"
    using s1 by simp
  have "\<exists>u r. e = u @ r \<and> 1 \<le> length u \<and> set u \<subseteq> set local_chars
           \<and> shape [Lit (CHR ''@''), AtLeast 1 domain_chars, Lit (CHR ''.''), AtLeast 2 tld_chars, WordBoundary] r"
    using s0 l e by (intro exI[of _ l] exI[of _ "''@'' @ d @ ''.'' @ t"]) (cases l, auto)
  then show "shape email_pattern e" by (simp add: email_pattern_def)
next
  assume "shape email_pattern e"
  then have "\<exists>u r. e = u @ r \<and> 1 \<le> length u \<and> set u \<subseteq> set local_chars \<and>
      shape [Lit (CHR ''@''), AtLeast 1 domain_chars, Lit (CHR ''.''), AtLeast 2 tld_chars, WordBoundary] r"
    by (simp only: email_pattern_def shape.simps(2) shape.simps(4))
  then obtain l r where 1: "e = l @ r" "1 \<le> length l" "set l \<subseteq> set local_chars"
      "shape [Lit (CHR ''@''), AtLeast 1 domain_chars, Lit (CHR ''.''), AtLeast 2 tld_chars, WordBoundary] r"
    by blast
  from 1(4) have "\<exists>r1. r = CHR ''@'' # r1 \<and>
      shape [AtLeast 1 domain_chars, Lit (CHR ''.''), AtLeast 2 tld_chars, WordBoundary] r1"
    by (simp only: shape.simps(3))
  then obtain r1 where 2: "r = CHR ''@'' # r1"
      "shape [AtLeast 1 domain_chars, Lit (CHR ''.''), AtLeast 2 tld_chars, WordBoundary] r1" by blast
  from 2(2) have "\<exists>u r2. r1 = u @ r2 \<and> 1 \<le> length u \<and> set u \<subseteq> set domain_chars \<and>
      shape [Lit (CHR ''.''), AtLeast 2 tld_chars, WordBoundary] r2"
    by (simp only: shape.simps(4))
  then obtain d r2 where 3: "r1 = d @ r2" "1 \<le> length d" "set d \<subseteq> set domain_chars"
      "shape [Lit (CHR ''.''), AtLeast 2 tld_chars, WordBoundary] r2" by blast
  from 3(4) have "\<exists>t. r2 = CHR ''.'' # t \<and> shape [AtLeast 2 tld_chars, WordBoundary] t"
    by (simp only: shape.simps(3))
  then obtain t where 4: "r2 = CHR ''.'' # t" "shape [AtLeast 2 tld_chars, WordBoundary] t" by blast
  from 4(2) have 5: "2 \<le> length t" "set t \<subseteq> set tld_chars" by auto
  have "e = l @ ''@'' @ d @ ''.'' @ t" using 1(1) 2(1) 3(1) 4(1) by simp
  moreover have "l \<noteq> []" "d \<noteq> []" using 1(2) 3(2) by auto
  ultimately show "matched_shape e" unfolding matched_shape_def using 1(3) 3(3) 5 by blast
qed

lemma matches_start: "matches rt (WordBoundary # atoms) prev s n \<Longrightarrow> word_before rt prev \<noteq> word_after rt s"
  by simp

lemma matches_end:
  "matches rt (atoms @ [WordBoundary]) prev s n \<Longrightarrow>
     n \<le> length s \<and> word_before rt (last_char prev (take n s)) \<noteq> word_after rt (drop n s)"
proof (induction rt atoms prev s n rule: matches.induct)
  case (1 rt prev s n)
  then show ?case by (simp add: last_char_def)
next
  case (2 rt atoms prev s n)
  then show ?case by simp
next
  case (3 rt c atoms prev s n)
  then show ?case by (cases s; cases n) (auto simp: last_char_def)
next
  case (4 rt m cs atoms prev s n)
  from "4.prems" obtain k where k: "k \<in> {m..n}" "k \<le> length s"
      "matches rt (atoms @ [WordBoundary]) (char_before prev s k) (drop k s) (n - k)" by auto
  from "4.IH"[OF k(1) k(3)] have ih: "n - k \<le> length (drop k s)"
     "word_before rt (last_char (char_before prev s k) (take (n - k) (drop k s))) \<noteq> word_after rt (drop (n - k) (drop k s))"
    by simp_all
  have n: "n \<le> length s" using ih(1) k(1,2) by auto
  have t: "take n s = take k s @ take (n - k) (drop k s)"
    using k(1) by (metis atLeastAtMost_iff le_add_diff_inverse take_add)
  have "last_char (char_before prev s k) (take (n - k) (drop k s)) = last_char prev (take n s)"
    using char_before_last_char[OF k(2)] t last_char_append by metis
  moreover have "drop (n - k) (drop k s) = drop n s" using k(1) by simp
  ultimately show ?case using ih(2) n by simp
qed

declare findall_from.simps [simp del]

lemma last_char_Cons: "last_char (Some c) pre = last_char prev (c # pre)"
  by (simp add: last_char_def)

lemma findall_from_sound:
  "e \<in> set (findall_from rt atoms prev s) \<Longrightarrow>
     \<exists>pre post. s = pre @ e @ post \<and> matches rt atoms (last_char prev pre) (e @ post) (length e)"
proof (induction rt atoms prev s rule: findall_from.induct)
  case (1 rt atoms prev s)
  note P = "1.prems"[unfolded findall_from.simps[of rt atoms prev s]]
  have step: "\<And>c cs. s = c # cs \<Longrightarrow>
      \<exists>pre post. cs = pre @ e @ post \<and> matches rt atoms (last_char (Some c) pre) (e @ post) (length e) \<Longrightarrow>
      \<exists>pre post. s = pre @ e @ post \<and> matches rt atoms (last_char prev pre) (e @ post) (length e)"
  proof -
    fix c cs assume s: "s = c # cs"
      and "\<exists>pre post. cs = pre @ e @ post \<and> matches rt atoms (last_char (Some c) pre) (e @ post) (length e)"
    then obtain pre post where p: "cs = pre @ e @ post"
        "matches rt atoms (last_char (Some c) pre) (e @ post) (length e)" by blast
    have "s = (c # pre) @ e @ post" using s p(1) by simp
    moreover have "matches rt atoms (last_char prev (c # pre)) (e @ post) (length e)"
      using p(2) last_char_Cons[of c pre prev] by simp
    ultimately show "\<exists>pre post. s = pre @ e @ post \<and> matches rt atoms (last_char prev pre) (e @ post) (length e)"
      by blast
  qed
  show ?case
  proof (cases "match_here rt atoms prev s")
    case None
    show ?thesis
    proof (cases s)
      case Nil
      then show ?thesis using P None by simp
    next
      case (Cons c cs)
      then have "e \<in> set (findall_from rt atoms (Some c) cs)"
        using P None by simp
      from "1.IH"(1)[OF None Cons this] show ?thesis by (rule step[OF Cons])
    qed
  next
    case (Some n)
    have m: "matches rt atoms prev s n" using Some by (rule match_here_sound)
    have nl: "n \<le> length s" using Some by (rule match_here_le)
    show ?thesis
    proof (cases "n = 0")
      case True
      show ?thesis
      proof (cases "e = []")
        case e: True
        have "s = [] @ e @ s" "matches rt atoms (last_char prev []) (e @ s) (length e)"
          using e m True by (simp_all add: last_char_def)
        then show ?thesis by blast
      next
        case False
        show ?thesis
        proof (cases s)
          case Nil
          then show ?thesis using P Some True False by simp
        next
          case (Cons c cs)
          then have "e \<in> set (findall_from rt atoms (Some c) cs)"
            using P Some True False by simp
          from "1.IH"(2)[OF Some True Cons this] show ?thesis by (rule step[OF Cons])
        qed
      qed
    next
      case False
      have "e = take n s \<or> e \<in> set (findall_from rt atoms (char_before prev s n) (drop n s))"
        using P Some False by simp
      then show ?thesis
      proof
        assume e: "e = take n s"
        have "s = [] @ e @ drop n s" using e by simp
        moreover have "matches rt atoms (last_char prev []) (e @ drop n s) (length e)"
          using m e nl by (simp add: last_char_def min_def)
        ultimately show ?thesis by blast
      next
        assume "e \<in> set (findall_from rt atoms (char_before prev s n) (drop n s))"
        from "1.IH"(3)[OF Some False this] obtain pre post where p: "drop n s = pre @ e @ post"
          "matches rt atoms (last_char (char_before prev s n) pre) (e @ post) (length e)" by blast
        have "s = (take n s @ pre) @ e @ post" using p(1) by (metis append_assoc append_take_drop_id)
        moreover have "last_char (char_before prev s n) pre = last_char prev (take n s @ pre)"
          using char_before_last_char[OF nl, of prev] last_char_append by metis
        ultimately show ?thesis using p(2) by metis
      qed
    qed
  qed
qed

lemma findall_from_nonempty:
  "s = pre @ rest \<Longrightarrow> matches rt atoms (last_char prev pre) rest n \<Longrightarrow> findall_from rt atoms prev s \<noteq> []"
proof (induction rt atoms prev s arbitrary: pre rule: findall_from.induct)
  case (1 rt atoms prev s)
  show ?case
  proof (cases "match_here rt atoms prev s")
    case (Some k)
    then show ?thesis by (subst findall_from.simps) simp
  next
    case None
    have "pre \<noteq> []"
    proof
      assume "pre = []"
      then have "matches rt atoms prev s n" using "1.prems" by (simp add: last_char_def)
      then show False using match_here_complete None by blast
    qed
    then obtain c pre' where pre: "pre = c # pre'" by (cases pre) auto
    then obtain cs where s: "s = c # cs" "cs = pre' @ rest" using "1.prems"(1) by simp
    have "matches rt atoms (last_char (Some c) pre') rest n"
      using "1.prems"(2) pre last_char_Cons[of c pre' prev] by simp
    from "1.IH"(1)[OF None s(1) s(2) this] show ?thesis
      using None s(1) by (subst findall_from.simps) simp
  qed
qed

named_theorems regex_defs

declare findall_def [regex_defs] email_pattern_def [regex_defs] local_chars_def [regex_defs]
  domain_chars_def [regex_defs] tld_chars_def [regex_defs] ascii_uppercase_def [regex_defs]
  ascii_lowercase_def [regex_defs] digits_def [regex_defs] is_word_def [regex_defs]
  char_before_def [regex_defs] extract_emails_from_text_def [regex_defs] findall_from.simps [regex_defs]

lemma word_before_last_char: "word_before rt (last_char None pre) = (pre \<noteq> [] \<and> is_word rt (last pre))"
  by (simp add: last_char_def)

lemma word_after_hd: "word_after rt s = (s \<noteq> [] \<and> is_word rt (hd s))"
  by (cases s) auto

lemma word_boundary_iff:
  "word_boundary rt pre s = (word_before rt (last_char None pre) \<noteq> word_after rt s)"
  by (simp add: word_boundary_def word_before_last_char word_after_hd)

lemma matched_shape_nonempty: "matched_shape e \<Longrightarrow> e \<noteq> []"
  by (auto simp: matched_shape_def)

lemma email_pattern_split:
  "email_pattern = [WordBoundary, AtLeast 1 local_chars, Lit (CHR ''@''), AtLeast 1 domain_chars,
      Lit (CHR ''.''), AtLeast 2 tld_chars] @ [WordBoundary]"
  by (simp add: email_pattern_def)

lemma email_match_bounded:
  assumes "matches rt email_pattern (last_char None pre) (e @ post) (length e)"
  shows "word_boundary rt pre (e @ post) \<and> word_boundary rt (pre @ e) post \<and> matched_shape e"
proof -
  have 1: "word_boundary rt pre (e @ post)"
    using assms by (simp add: email_pattern_def word_boundary_iff)
  have "word_before rt (last_char (last_char None pre) (take (length e) (e @ post)))
          \<noteq> word_after rt (drop (length e) (e @ post))"
    using matches_end[of rt _ "last_char None pre" "e @ post" "length e"] assms
    unfolding email_pattern_split by blast
  then have 2: "word_boundary rt (pre @ e) post"
    by (simp add: word_boundary_iff last_char_append)
  have 3: "matched_shape e"
    using matches_shape[OF assms] by (simp add: matched_shape_pattern)
  show ?thesis using 1 2 3 by simp
qed

lemma matched_shape_email_shape: "matched_shape e \<Longrightarrow> CHR ''|'' \<notin> set e \<Longrightarrow> email_shape e"
proof -
  assume "matched_shape e" and np: "CHR ''|'' \<notin> set e"
  then obtain l d t where e: "e = l @ ''@'' @ d @ ''.'' @ t"
     and l: "l \<noteq> []" "set l \<subseteq> set local_chars"
     and d: "d \<noteq> []" "set d \<subseteq> set domain_chars"
     and t: "2 \<le> length t" "set t \<subseteq> set tld_chars"
    unfolding matched_shape_def by blast
  have "CHR ''|'' \<notin> set t" using np e by simp
  then have "set t \<subseteq> set (ascii_uppercase @ ascii_lowercase)"
    using t(2) by (auto simp: tld_chars_def)
  then show "email_shape e" unfolding email_shape_def using e l d t(1) by blast
qed

lemma email_shape_matched_shape: "email_shape e \<Longrightarrow> matched_shape e"
  unfolding email_shape_def matched_shape_def tld_chars_def by fastforce

lemma matches_AtLeastI:
  "m \<le> length u \<Longrightarrow> set u \<subseteq> set cs \<Longrightarrow>
   matches rt atoms (char_before prev (u @ r) (length u)) r n \<Longrightarrow>
   matches rt (AtLeast m cs # atoms) prev (u @ r) (length u + n)"
  by (auto intro!: bexI[of _ "length u"])

lemma matched_shape_matches:
  assumes "matched_shape e" "word_boundary rt pre (e @ post)" "word_boundary rt (pre @ e) post"
  shows "matches rt email_pattern (last_char None pre) (e @ post) (length e)"
proof -
  from assms(1) obtain l d t where e: "e = l @ ''@'' @ d @ ''.'' @ t"
     and l: "l \<noteq> []" "set l \<subseteq> set local_chars"
     and d: "d \<noteq> []" "set d \<subseteq> set domain_chars"
     and t: "2 \<le> length t" "set t \<subseteq> set tld_chars"
    unfolding matched_shape_def by blast
  have tne: "t \<noteq> []" using t(1) by auto
  have "last (pre @ e) = last t" using e tne by simp
  then have b2: "word_before rt (Some (last t)) \<noteq> word_after rt post"
    using assms(3) e by (simp add: word_boundary_iff last_char_def)
  have cb: "\<And>p. char_before p (t @ post) (length t) = Some (last t)"
    using tne by (simp add: char_before_def nth_append last_conv_nth)
  have m6: "\<And>p. matches rt [WordBoundary] (char_before p (t @ post) (length t)) post 0"
    using b2 cb by simp
  have m5: "\<And>p. matches rt [AtLeast 2 tld_chars, WordBoundary] p (t @ post) (length t + 0)"
    using t m6 by (intro matches_AtLeastI) auto
  have m4: "\<And>p. matches rt [Lit (CHR ''.''), AtLeast 2 tld_chars, WordBoundary] p (''.'' @ t @ post) (Suc (length t))"
    using m5 by simp
  have m3: "\<And>p. matches rt [AtLeast 1 domain_chars, Lit (CHR ''.''), AtLeast 2 tld_chars, WordBoundary] p
        (d @ ''.'' @ t @ post) (length d + Suc (length t))"
    using d m4 by (intro matches_AtLeastI) (cases d, auto)
  have m2: "\<And>p. matches rt [Lit (CHR ''@''), AtLeast 1 domain_chars, Lit (CHR ''.''), AtLeast 2 tld_chars, WordBoundary] p
        (''@'' @ d @ ''.'' @ t @ post) (Suc (length d + Suc (length t)))"
    using m3 by simp
  have m1: "\<And>p. matches rt [AtLeast 1 local_chars, Lit (CHR ''@''), AtLeast 1 domain_chars, Lit (CHR ''.''),
          AtLeast 2 tld_chars, WordBoundary] p
        (l @ ''@'' @ d @ ''.'' @ t @ post) (length l + Suc (length d + Suc (length t)))"
    using l m2 by (intro matches_AtLeastI) (cases l, auto)
  have len: "length e = length l + Suc (length d + Suc (length t))" using e by simp
  have ep: "e @ post = l @ ''@'' @ d @ ''.'' @ t @ post" using e by simp
  show ?thesis
    unfolding email_pattern_def matches.simps(2) len ep
    using m1 assms(2) by (simp add: word_boundary_iff e)
qed

text \<open>
  What the scan returns in general. Every string \<open>extract_emails_from_text\<close> returns is a
  substring of the input with a word boundary on both sides, and when it holds no bar it
  is of the email grammar (local part, \<open>@\<close>, domain part, dot, two or more ASCII letters).
  Whenever the input holds a word-bounded substring of the grammar the result is not
  empty. Equal strings are one element, and strings that differ in case are two.
\<close>

lemma extract_emails_word_bounded_scan:
  "(\<forall>e\<in>extract_emails_from_text rt text.
       (\<exists>pre post. text = pre @ e @ post \<and> word_boundary rt pre (e @ post) \<and> word_boundary rt (pre @ e) post)
       \<and> (CHR ''|'' \<notin> set e \<longrightarrow> email_shape e))
   \<and> ((\<exists>pre e post. text = pre @ e @ post \<and> word_boundary rt pre (e @ post)
          \<and> word_boundary rt (pre @ e) post \<and> email_shape e)
        \<longrightarrow> extract_emails_from_text rt text \<noteq> {})
   \<and> extract_emails_from_text rt ''contact me at a.b+c@example.CO and also a.b+c@example.co!''
        = {''a.b+c@example.CO'', ''a.b+c@example.co''}"
proof (intro conjI ballI impI)
  fix e assume "e \<in> extract_emails_from_text rt text"
  then have "e \<in> set (findall_from rt email_pattern None text)"
    by (simp add: extract_emails_from_text_def findall_def)
  from findall_from_sound[OF this] obtain pre post where p: "text = pre @ e @ post"
      "matches rt email_pattern (last_char None pre) (e @ post) (length e)" by blast
  note b = email_match_bounded[OF p(2)]
  show "\<exists>pre post. text = pre @ e @ post \<and> word_boundary rt pre (e @ post) \<and> word_boundary rt (pre @ e) post"
    using p(1) b by blast
  assume "CHR ''|'' \<notin> set e"
  then show "email_shape e" using b matched_shape_email_shape by blast
next
  assume "\<exists>pre e post. text = pre @ e @ post \<and> word_boundary rt pre (e @ post)
          \<and> word_boundary rt (pre @ e) post \<and> email_shape e"
  then obtain pre e post where p: "text = pre @ e @ post" "word_boundary rt pre (e @ post)"
      "word_boundary rt (pre @ e) post" "email_shape e" by blast
  have "matches rt email_pattern (last_char None pre) (e @ post) (length e)"
    using matched_shape_matches[OF email_shape_matched_shape[OF p(4)] p(2) p(3)] .
  from findall_from_nonempty[OF p(1) this] show "extract_emails_from_text rt text \<noteq> {}"
    by (simp add: extract_emails_from_text_def findall_def)
next
  show "extract_emails_from_text rt ''contact me at a.b+c@example.CO and also a.b+c@example.co!''
        = {''a.b+c@example.CO'', ''a.b+c@example.co''}"
    by (simp add: regex_defs)
qed

lemma email_shape_no_pipe: "email_shape e \<Longrightarrow> CHR ''|'' \<notin> set e"
  unfolding email_shape_def local_chars_def domain_chars_def ascii_uppercase_def ascii_lowercase_def digits_def
  by auto

lemma email_shape_short: "email_shape ''x@y.co''"
  unfolding email_shape_def
  by (rule exI[of _ "''x''"], rule exI[of _ "''y''"], rule exI[of _ "''co''"])
     (simp add: local_chars_def domain_chars_def ascii_lowercase_def)


text \<open>
  Claim C6 fails on the code. Line 66 writes the class of the top-level domain as
  \<^verbatim>\<open>[A-Z|a-z]\<close>, and a bar inside a character class is a character of the class, not an
  alternation. On \<^verbatim>\<open>x@y.co|m\<close> the function returns the whole input, which is not of the
  grammar of the claim (its last part holds a bar), and it does not return \<^verbatim>\<open>x@y.co\<close>,
  the substring of the grammar that stands between two word boundaries there.
\<close>

theorem extract_emails_admits_bar:
  "extract_emails_from_text plain_runtime ''x@y.co|m'' = {''x@y.co|m''}
   \<and> \<not> email_shape ''x@y.co|m''
   \<and> ''x@y.co|m'' = [] @ ''x@y.co'' @ ''|m''
   \<and> email_shape ''x@y.co''
   \<and> word_boundary plain_runtime [] (''x@y.co'' @ ''|m'')
   \<and> word_boundary plain_runtime ([] @ ''x@y.co'') ''|m''
   \<and> ''x@y.co'' \<notin> extract_emails_from_text plain_runtime ''x@y.co|m''
   \<and> CHR ''|'' \<in> set tld_chars"
proof -
  have 1: "extract_emails_from_text plain_runtime ''x@y.co|m'' = {''x@y.co|m''}"
    by (simp add: regex_defs plain_runtime_def)
  have 2: "\<not> email_shape ''x@y.co|m''" using email_shape_no_pipe[of "''x@y.co|m''"] by auto
  have 3: "word_boundary plain_runtime [] (''x@y.co'' @ ''|m'')
      \<and> word_boundary plain_runtime ([] @ ''x@y.co'') ''|m''"
    by (simp add: word_boundary_def regex_defs plain_runtime_def)
  have 4: "CHR ''|'' \<in> set tld_chars" by (simp add: tld_chars_def)
  show ?thesis using 1 2 3 4 email_shape_short by simp
qed

section \<open>Verification of the URL validator\<close>

named_theorems url_defs

declare validate_linkedin_url_def [url_defs] urlparse_def [url_defs] urlsplit_def [url_defs]
  split_scheme_def [url_defs] splitnetloc_def [url_defs] split_once_def [url_defs] splitparams_def [url_defs]
  str_lower_def [url_defs] scheme_chars_def [url_defs] uses_params_def [url_defs]
  c0_control_or_space_def [url_defs] unsafe_url_bytes_def [url_defs] bracketed_host_def [url_defs]
  ascii_uppercase_def [url_defs] ascii_lowercase_def [url_defs] digits_def [url_defs]

lemma contains_iff: "contains needle hay = (\<exists>u v. hay = u @ needle @ v)"
proof (induction hay)
  case Nil
  then show ?case by auto
next
  case (Cons c cs)
  show ?case
  proof
    assume "contains needle (c # cs)"
    then consider "take (length needle) (c # cs) = needle" | "contains needle cs" by auto
    then show "\<exists>u v. c # cs = u @ needle @ v"
    proof cases
      case 1
      then have "c # cs = [] @ needle @ drop (length needle) (c # cs)"
        by (metis append_Nil append_take_drop_id)
      then show ?thesis by blast
    next
      case 2
      then obtain u v where "cs = u @ needle @ v" using Cons.IH by blast
      then have "c # cs = (c # u) @ needle @ v" by simp
      then show ?thesis by blast
    qed
  next
    assume "\<exists>u v. c # cs = u @ needle @ v"
    then obtain u v where uv: "c # cs = u @ needle @ v" by blast
    show "contains needle (c # cs)"
    proof (cases u)
      case Nil
      then have "take (length needle) (c # cs) = needle" using uv by simp
      then show ?thesis by simp
    next
      case (Cons a u')
      then have "cs = u' @ needle @ v" using uv by simp
      then show ?thesis using Cons.IH by auto
    qed
  qed
qed

lemma urlsplit_raises_ValueError: "urlsplit rt url = Inl e \<Longrightarrow> exn_class e = ValueError"
  by (auto simp: urlsplit_def Let_def split: prod.splits if_splits)

lemma urlparse_raises_ValueError: "urlparse rt url = Inl e \<Longrightarrow> exn_class e = ValueError"
  by (auto simp: urlparse_def Let_def split: sum.splits prod.splits dest: urlsplit_raises_ValueError)

text \<open>
  The \<open>hostname\<close> attribute of a parse result (CPython 3.11, \<open>_hostinfo\<close> and \<open>hostname\<close>):
  the netloc after its last \<open>@\<close>, up to the port, in lower case. The validator does not
  read it; it is here to tell the netloc from the host.
\<close>

definition hostname :: "parse_result \<Rightarrow> string option" where
  "hostname p =
     (let hostinfo = rev (takeWhile (\<lambda>c. c \<noteq> CHR ''@'') (rev (pr_netloc p)));
          host = (if CHR ''['' \<in> set hostinfo
                  then fst (split_once (CHR '']'') (snd (split_once (CHR ''['') hostinfo)))
                  else takeWhile (\<lambda>c. c \<noteq> CHR '':'') hostinfo)
      in if host = [] then None
         else Some (str_lower (takeWhile (\<lambda>c. c \<noteq> CHR ''%'') host) @ dropWhile (\<lambda>c. c \<noteq> CHR ''%'') host))"

lemma netloc_is_not_hostname:
  "validate_linkedin_url rt ''https://linkedin.com@evil.example/posts/1'' = Inr True
   \<and> map_sum id (\<lambda>p. (pr_netloc p, hostname p, pr_path p)) (urlparse rt ''https://linkedin.com@evil.example/posts/1'')
       = Inr (''linkedin.com@evil.example'', Some ''evil.example'', ''/posts/1'')
   \<and> validate_linkedin_url rt ''HTTPS://WWW.LINKEDIN.COM/posts/x'' = Inr False
   \<and> map_sum id (\<lambda>p. (pr_netloc p, hostname p, pr_path p)) (urlparse rt ''HTTPS://WWW.LINKEDIN.COM/posts/x'')
       = Inr (''WWW.LINKEDIN.COM'', Some ''www.linkedin.com'', ''/posts/x'')"
  by (simp add: url_defs hostname_def char_of_def drop_bit_eq_div bit_iff_odd)


text \<open>
  Claim C7, as amended. \<open>validate_linkedin_url\<close> returns exactly when \<open>urlparse\<close> does, and
  then it returns true iff the netloc of the parse result (the authority as written:
  user information, host and port, in the case of the input) contains \<open>linkedin.com\<close>
  and the parsed path contains \<open>/posts/\<close> or \<open>/feed/update/\<close>. When \<open>urlparse\<close> raises,
  the \<open>ValueError\<close> leaves \<open>validate_linkedin_url\<close> as it is. The four URLs of the claim
  give false, false, true and true; a URL with the marker in its user information gives
  true, and one with the marker in upper case gives false.
\<close>

theorem validate_linkedin_url_parsed:
  "(\<forall>b. validate_linkedin_url rt url = Inr b \<longrightarrow>
       (\<exists>p. urlparse rt url = Inr p
          \<and> b = ((\<exists>u v. pr_netloc p = u @ ''linkedin.com'' @ v)
                 \<and> ((\<exists>u v. pr_path p = u @ ''/posts/'' @ v)
                      \<or> (\<exists>u v. pr_path p = u @ ''/feed/update/'' @ v)))))
   \<and> (\<forall>e. validate_linkedin_url rt url = Inl e \<longrightarrow> urlparse rt url = Inl e \<and> exn_class e = ValueError)
   \<and> (\<forall>p. urlparse rt url = Inr p \<longrightarrow> (\<exists>b. validate_linkedin_url rt url = Inr b))
   \<and> (\<forall>e. urlparse rt url = Inl e \<longrightarrow> validate_linkedin_url rt url = Inl e)
   \<and> validate_linkedin_url rt ''https://www.example.com/posts/123'' = Inr False
   \<and> validate_linkedin_url rt ''https://www.linkedin.com/in/someone'' = Inr False
   \<and> validate_linkedin_url rt ''https://www.linkedin.com/posts/abc123'' = Inr True
   \<and> validate_linkedin_url rt ''https://www.linkedin.com/feed/update/urn:li:activity:1'' = Inr True
   \<and> validate_linkedin_url rt ''https://linkedin.com@evil.example/posts/1'' = Inr True
   \<and> validate_linkedin_url rt ''HTTPS://WWW.LINKEDIN.COM/posts/x'' = Inr False"
proof (intro conjI allI impI)
  fix b assume "validate_linkedin_url rt url = Inr b"
  then show "\<exists>p. urlparse rt url = Inr p
          \<and> b = ((\<exists>u v. pr_netloc p = u @ ''linkedin.com'' @ v)
                 \<and> ((\<exists>u v. pr_path p = u @ ''/posts/'' @ v)
                      \<or> (\<exists>u v. pr_path p = u @ ''/feed/update/'' @ v)))"
    by (cases "urlparse rt url") (auto simp: validate_linkedin_url_def contains_iff)
next
  fix e assume v: "validate_linkedin_url rt url = Inl e"
  then show "urlparse rt url = Inl e"
    by (cases "urlparse rt url") (auto simp: validate_linkedin_url_def)
  then show "exn_class e = ValueError" by (rule urlparse_raises_ValueError)
next
  fix p assume "urlparse rt url = Inr p"
  then show "\<exists>b. validate_linkedin_url rt url = Inr b" by (simp add: validate_linkedin_url_def)
next
  fix e assume "urlparse rt url = Inl e"
  then show "validate_linkedin_url rt url = Inl e" by (simp add: validate_linkedin_url_def)
next
  show "validate_linkedin_url rt ''https://www.example.com/posts/123'' = Inr False"
    by (simp add: url_defs)
  show "validate_linkedin_url rt ''https://www.linkedin.com/in/someone'' = Inr False"
    by (simp add: url_defs)
  show "validate_linkedin_url rt ''https://www.linkedin.com/posts/abc123'' = Inr True"
    by (simp add: url_defs)
  show "validate_linkedin_url rt ''https://www.linkedin.com/feed/update/urn:li:activity:1'' = Inr True"
    by (simp add: url_defs)
  show "validate_linkedin_url rt ''https://linkedin.com@evil.example/posts/1'' = Inr True"
    by (simp add: url_defs)
  show "validate_linkedin_url rt ''HTTPS://WWW.LINKEDIN.COM/posts/x'' = Inr False"
    by (simp add: url_defs)
qed


theorem unbalanced_bracket_counterexample:
  "validate_linkedin_url plain_runtime ''https://[www.linkedin.com/posts/abc123''
     = Inl (Exn ValueError ''Invalid IPv6 URL'')"
  by (simp add: url_defs)

theorem validate_linkedin_url_parsed_witness:
  "validate_linkedin_url plain_runtime ''https://linkedin.com@evil.example/posts/1'' = Inr True
   \<and> (\<exists>p. urlparse plain_runtime ''https://linkedin.com@evil.example/posts/1'' = Inr p
          \<and> pr_netloc p = ''linkedin.com@evil.example'' \<and> hostname p = Some ''evil.example''
          \<and> True = ((\<exists>u v. pr_netloc p = u @ ''linkedin.com'' @ v)
                 \<and> ((\<exists>u v. pr_path p = u @ ''/posts/'' @ v)
                      \<or> (\<exists>u v. pr_path p = u @ ''/feed/update/'' @ v))))
   \<and> validate_linkedin_url plain_runtime ''https://[www.linkedin.com/posts/abc123''
        = Inl (Exn ValueError ''Invalid IPv6 URL'')
   \<and> urlparse plain_runtime ''https://[www.linkedin.com/posts/abc123'' = Inl (Exn ValueError ''Invalid IPv6 URL'')
   \<and> exn_class (Exn ValueError ''Invalid IPv6 URL'') = ValueError"
proof -
  let ?url = "''https://linkedin.com@evil.example/posts/1''"
  have a: "validate_linkedin_url plain_runtime ?url = Inr True"
    by (simp add: url_defs)
  have b: "validate_linkedin_url plain_runtime ''https://[www.linkedin.com/posts/abc123''
        = Inl (Exn ValueError ''Invalid IPv6 URL'')"
    by (simp add: url_defs)
  have c: "map_sum id (\<lambda>p. (pr_netloc p, hostname p)) (urlparse plain_runtime ?url)
      = Inr (''linkedin.com@evil.example'', Some ''evil.example'')"
    by (simp add: url_defs hostname_def)
  note t1 = validate_linkedin_url_parsed[of plain_runtime ?url, THEN conjunct1, rule_format, OF a]
  note t2 = validate_linkedin_url_parsed[of plain_runtime "''https://[www.linkedin.com/posts/abc123''",
      THEN conjunct2, THEN conjunct1, rule_format, OF b]
  from t1 obtain p where p: "urlparse plain_runtime ?url = Inr p"
      "True = ((\<exists>u v. pr_netloc p = u @ ''linkedin.com'' @ v)
                 \<and> ((\<exists>u v. pr_path p = u @ ''/posts/'' @ v)
                      \<or> (\<exists>u v. pr_path p = u @ ''/feed/update/'' @ v)))"
    by blast
  have q: "pr_netloc p = ''linkedin.com@evil.example'' \<and> hostname p = Some ''evil.example''"
    using c unfolding p(1) by simp
  from a b t2 p q show ?thesis by blast
qed

section \<open>Verification of the result sink\<close>

definition file_lines :: "string list \<Rightarrow> string" where
  "file_lines emails = concat (map (\<lambda>email. email @ [CHR 0x0A]) emails)"

lemma files_update_cong: "f = g \<Longrightarrow> w\<lparr>files := f\<rparr> = w\<lparr>files := g\<rparr>"
  by simp

lemma write_lines:
  "files w filename = Some old \<Longrightarrow>
   for_each emails (\<lambda>email. write_text filename (email @ [CHR 0x0A])) w
     = (Inr (), w\<lparr>files := (files w)(filename \<mapsto> old @ file_lines emails)\<rparr>)"
proof (induction emails arbitrary: w old)
  case Nil
  then show ?case by (simp add: return_def file_lines_def fun_upd_idem)
next
  case (Cons email emails)
  let ?w1 = "w\<lparr>files := (files w)(filename \<mapsto> old @ email @ [CHR 0x0A])\<rparr>"
  have 1: "write_text filename (email @ [CHR 0x0A]) w = (Inr (), ?w1)"
    using Cons.prems by (simp add: write_text_def)
  have 2: "files ?w1 filename = Some (old @ email @ [CHR 0x0A])" by simp
  have 3: "?w1\<lparr>files := (files ?w1)(filename \<mapsto> (old @ email @ [CHR 0x0A]) @ file_lines emails)\<rparr>
       = w\<lparr>files := (files w)(filename \<mapsto> old @ file_lines (email # emails))\<rparr>"
    by (simp add: file_lines_def)
  show ?case using 1 Cons.IH[OF 2] unfolding 3 by (simp add: bind_def fun_upd_def)
qed

text \<open>
  Claim C9. For a finite set of addresses and a destination that can be opened,
  \<open>save_emails_to_file\<close> leaves in the file exactly the addresses in sorted order without
  repetition, one per line, each line ended by a newline, whatever the file held before;
  for the two addresses of the claim that is the text of the claim.
\<close>

theorem save_emails_sorted_lines:
  assumes "finite emails" and "open_error rt filename = None"
  shows "save_emails_to_file rt emails filename w
           = (Inr (), w\<lparr>files := (files w)(filename \<mapsto> file_lines (sorted_list_of_set emails)),
                         stdout := stdout w @ [''Emails saved to '' @ filename]\<rparr>)
         \<and> sorted (sorted_list_of_set emails) \<and> distinct (sorted_list_of_set emails)
         \<and> set (sorted_list_of_set emails) = emails
         \<and> files (snd (save_emails_to_file rt {''z@x.com'', ''a@x.com''} filename w)) filename
              = Some (''a@x.com'' @ [CHR 0x0A] @ ''z@x.com'' @ [CHR 0x0A])"
proof -
  have run: "\<And>es. save_emails_to_file rt es filename w
           = (Inr (), w\<lparr>files := (files w)(filename \<mapsto> file_lines (sorted_list_of_set es)),
                         stdout := stdout w @ [''Emails saved to '' @ filename]\<rparr>)"
  proof -
    fix es :: "string set"
    let ?w0 = "w\<lparr>files := (files w)(filename \<mapsto> [])\<rparr>"
    have o: "open_for_writing rt filename w = (Inr (), ?w0)"
      using assms(2) by (simp add: open_for_writing_def)
    have f: "files ?w0 filename = Some []" by simp
    show "save_emails_to_file rt es filename w
           = (Inr (), w\<lparr>files := (files w)(filename \<mapsto> file_lines (sorted_list_of_set es)),
                         stdout := stdout w @ [''Emails saved to '' @ filename]\<rparr>)"
      using o write_lines[OF f, of "sorted_list_of_set es"]
      by (simp add: save_emails_to_file_def try_except_def bind_def print_def)
  qed
  have ex: "sorted_list_of_set {''z@x.com'', ''a@x.com''} = [''a@x.com'', ''z@x.com'']"
    by (simp add: sorted_list_of_set_insert_remove less_eq_char_def less_char_def)
  show ?thesis using run assms(1) ex by (simp add: file_lines_def)
qed

theorem save_emails_sorted_lines_witness:
  "finite {''z@x.com'', ''a@x.com''} \<and> open_error plain_runtime ''scraped_emails.txt'' = None
   \<and> files (fresh\<lparr>files := (files fresh)(''scraped_emails.txt'' \<mapsto> ''stale'')\<rparr>) ''scraped_emails.txt'' = Some ''stale''
   \<and> files (snd (save_emails_to_file plain_runtime {''z@x.com'', ''a@x.com''} ''scraped_emails.txt''
                   (fresh\<lparr>files := (files fresh)(''scraped_emails.txt'' \<mapsto> ''stale'')\<rparr>))) ''scraped_emails.txt''
        = Some (''a@x.com'' @ [CHR 0x0A] @ ''z@x.com'' @ [CHR 0x0A])"
proof -
  have f: "finite {''z@x.com'', ''a@x.com''}" by simp
  have o: "open_error plain_runtime ''scraped_emails.txt'' = None" by (simp add: plain_runtime_def)
  show ?thesis
    using f o save_emails_sorted_lines[OF f o, of "fresh\<lparr>files := (files fresh)(''scraped_emails.txt'' \<mapsto> ''stale'')\<rparr>"]
    by (simp add: file_lines_def)
qed

section \<open>Verification of the harvester\<close>

text \<open>
  What the harvest collects and what it prints, read off lines 229-256: the addresses of
  the matches of every selector, the fallback over the page text, the script tags; one
  line for each selector with matches, the line of the fallback, the total.
\<close>

definition harvested :: "runtime \<Rightarrow> soup \<Rightarrow> string set" where
  "harvested rt sp =
     (\<Union>selector\<in>set comment_selectors. \<Union>comment\<in>set (soup_select sp selector).
         extract_emails_from_text rt (tag_get_text_strip comment))
     \<union> (if \<forall>selector\<in>set comment_selectors. soup_select sp selector = []
        then extract_emails_from_text rt (soup_get_text sp) else {})
     \<union> (\<Union>script\<in>set (soup_find_all sp ''script'').
          case tag_string script of None \<Rightarrow> {} | Some text \<Rightarrow> extract_emails_from_text rt text)"

definition two_pattern_document :: soup where
  "two_pattern_document =
     \<lparr>soup_select = (\<lambda>selector.
         if selector = ''.comments-comment-item''
         then [\<lparr>tag_get_text_strip = ''write to a@x.com'', tag_string = None\<rparr>]
         else if selector = ''.comments-comment-item__main-content''
         then [\<lparr>tag_get_text_strip = ''or to b@y.org'', tag_string = None\<rparr>]
         else []),
       soup_find_all = (\<lambda>name. []),
       soup_get_text = ''write to a@x.com or to b@y.org''\<rparr>"

lemma update_from_comments_union:
  "update_from_comments rt all_emails comments
     = all_emails \<union> (\<Union>comment\<in>set comments. extract_emails_from_text rt (tag_get_text_strip comment))"
  by (induction comments arbitrary: all_emails) auto

lemma extract_emails_empty: "extract_emails_from_text rt [] = {}"
  by (simp add: regex_defs)

lemma update_from_scripts_union:
  "update_from_scripts rt all_emails scripts
     = all_emails \<union> (\<Union>script\<in>set scripts.
          case tag_string script of None \<Rightarrow> {} | Some text \<Rightarrow> extract_emails_from_text rt text)"
proof (induction scripts arbitrary: all_emails)
  case Nil
  then show ?case by simp
next
  case (Cons script scripts)
  show ?case
    by (cases "tag_string script") (auto simp: Cons.IH extract_emails_empty)
qed

definition found_line :: "soup \<Rightarrow> string \<Rightarrow> string" where
  "found_line sp selector =
     ''Found '' @ str_nat (length (soup_select sp selector)) @ '' comment elements with selector: '' @ selector"

definition harvest_report :: "runtime \<Rightarrow> soup \<Rightarrow> string list" where
  "harvest_report rt sp =
     map (found_line sp) (filter (\<lambda>selector. soup_select sp selector \<noteq> []) comment_selectors)
     @ (if \<forall>selector\<in>set comment_selectors. soup_select sp selector = []
        then [''Specific comment selectors not found, searching entire page...''] else [])
     @ [''Total emails found: '' @ str_nat (card (harvested rt sp))]"

lemma harvest_selectors_run:
  "harvest_selectors rt sp selectors (all_emails, comments_found) w
     = (Inr (all_emails \<union> (\<Union>selector\<in>set selectors. \<Union>comment\<in>set (soup_select sp selector).
                 extract_emails_from_text rt (tag_get_text_strip comment)),
            comments_found \<or> (\<exists>selector\<in>set selectors. soup_select sp selector \<noteq> [])),
        w\<lparr>stdout := stdout w
              @ map (found_line sp) (filter (\<lambda>selector. soup_select sp selector \<noteq> []) selectors)\<rparr>)"
proof (induction selectors arbitrary: all_emails comments_found w)
  case Nil
  then show ?case by (simp add: return_def)
next
  case (Cons selector selectors)
  show ?case
  proof (cases "soup_select sp selector = []")
    case True
    then show ?thesis using Cons.IH[of all_emails comments_found w] by simp
  next
    case False
    have u: "update_from_comments rt all_emails (soup_select sp selector)
          \<union> (\<Union>selector\<in>set selectors. \<Union>comment\<in>set (soup_select sp selector).
                 extract_emails_from_text rt (tag_get_text_strip comment))
        = all_emails \<union> (\<Union>selector\<in>set (selector # selectors). \<Union>comment\<in>set (soup_select sp selector).
                 extract_emails_from_text rt (tag_get_text_strip comment))"
      by (auto simp: update_from_comments_union)
    show ?thesis
      using False
        Cons.IH[of "update_from_comments rt all_emails (soup_select sp selector)" True
                   "w\<lparr>stdout := stdout w @ [found_line sp selector]\<rparr>"]
      unfolding u[symmetric]
      by (simp add: bind_def print_def Let_def found_line_def del: str_nat.simps)
  qed
qed

text \<open>
  Claim C2, as amended. The harvester tries the selectors in their order and goes through
  the whole list: every selector with at least one match is reported on its own line, in
  the order of the list, and the matches of every such selector are given to the
  extractor. The result is the union over all selectors with matches, over the text of the
  whole page when no selector has a match, and over the script tags. A document with
  matches for the first and the third selector gets the addresses of both.
\<close>

theorem harvest_unions_every_selector:
  "harvest rt sp w = (Inr (harvested rt sp), w\<lparr>stdout := stdout w @ harvest_report rt sp\<rparr>)"
proof -
  let ?found = "\<Union>selector\<in>set comment_selectors. \<Union>comment\<in>set (soup_select sp selector).
                 extract_emails_from_text rt (tag_get_text_strip comment)"
  have 1: "harvest_selectors rt sp comment_selectors ({}, False) w
      = (Inr (?found, \<exists>selector\<in>set comment_selectors. soup_select sp selector \<noteq> []),
         w\<lparr>stdout := stdout w
              @ map (found_line sp) (filter (\<lambda>selector. soup_select sp selector \<noteq> []) comment_selectors)\<rparr>)"
    using harvest_selectors_run[of rt sp comment_selectors "{}" False w] by simp
  show ?thesis
  proof (cases "\<forall>selector\<in>set comment_selectors. soup_select sp selector = []")
    case True
    then show ?thesis
      unfolding harvest_def harvested_def harvest_report_def
      by (simp add: 1 bind_def return_def print_def update_from_scripts_union Let_def del: str_nat.simps)
  next
    case False
    then have some: "\<exists>selector\<in>set comment_selectors. soup_select sp selector \<noteq> []" by simp
    show ?thesis
      unfolding harvest_def harvested_def harvest_report_def
      using False
      by (simp add: 1 some bind_def return_def print_def update_from_scripts_union Let_def
          del: str_nat.simps bex_simps ball_simps)
  qed
qed

theorem two_pattern_counterexample:
  "soup_select two_pattern_document ''.comments-comment-item''
      = [\<lparr>tag_get_text_strip = ''write to a@x.com'', tag_string = None\<rparr>]
   \<and> soup_select two_pattern_document ''.comments-comment-item__main-content''
      = [\<lparr>tag_get_text_strip = ''or to b@y.org'', tag_string = None\<rparr>]
   \<and> harvest plain_runtime two_pattern_document fresh
      = (Inr {''a@x.com'', ''b@y.org''},
         fresh\<lparr>stdout := [''Found 1 comment elements with selector: .comments-comment-item'',
                          ''Found 1 comment elements with selector: .comments-comment-item__main-content'',
                          ''Total emails found: 2'']\<rparr>)"
  by (simp add: two_pattern_document_def harvest_def comment_selectors_def bind_def return_def print_def
      regex_defs plain_runtime_def fresh_def digits_def insert_commute)

theorem harvest_unions_every_selector_witness:
  "harvest plain_runtime two_pattern_document fresh
     = (Inr (harvested plain_runtime two_pattern_document),
        fresh\<lparr>stdout := stdout fresh @ harvest_report plain_runtime two_pattern_document\<rparr>)
   \<and> harvested plain_runtime two_pattern_document = {''a@x.com'', ''b@y.org''}
   \<and> harvest_report plain_runtime two_pattern_document
       = [''Found 1 comment elements with selector: .comments-comment-item'',
          ''Found 1 comment elements with selector: .comments-comment-item__main-content'',
          ''Total emails found: 2'']"
proof -
  have "harvested plain_runtime two_pattern_document = {''a@x.com'', ''b@y.org''}"
    by (simp add: harvested_def two_pattern_document_def comment_selectors_def regex_defs plain_runtime_def
        insert_commute)
  moreover have "harvest_report plain_runtime two_pattern_document
       = [''Found 1 comment elements with selector: .comments-comment-item'',
          ''Found 1 comment elements with selector: .comments-comment-item__main-content'',
          ''Total emails found: 2'']"
    by (simp add: harvest_report_def found_line_def harvested_def two_pattern_document_def
        comment_selectors_def regex_defs plain_runtime_def digits_def)
  ultimately show ?thesis
    using harvest_unions_every_selector[of plain_runtime two_pattern_document fresh] by simp
qed

section \<open>Verification of the entry point\<close>

subsection \<open>The files are left alone up to the report\<close>



















subsection \<open>The run with no address\<close>







end
